theory Spec2Isabelle
  imports Main "HOL-Library.Sublist" "HOL-Library.AList"
begin

section \<open>Text\<close>

text \<open>
  A Python \<open>str\<close> is a sequence of Unicode code points, so a script is a list of
  code points. \<open>cps\<close> reads an ASCII literal as such a list.
\<close>

type_synonym str = "nat list"

definition cps :: "string \<Rightarrow> str" where
  "cps s = map of_char s"

text \<open>
  The white space of \<open>\s\<close> in a \<open>str\<close> pattern and of \<open>str.strip()\<close> is the same
  set, the code points for which \<open>str.isspace()\<close> holds.
\<close>

definition is_space :: "nat \<Rightarrow> bool" where
  "is_space c \<longleftrightarrow>
     (9 \<le> c \<and> c \<le> 13) \<or> (28 \<le> c \<and> c \<le> 32) \<or> c = 133 \<or> c = 160 \<or> c = 5760 \<or>
     (8192 \<le> c \<and> c \<le> 8202) \<or> c = 8232 \<or> c = 8233 \<or> c = 8239 \<or> c = 8287 \<or> c = 12288"

text \<open>
  \<open>str.strip()\<close>: white space is removed at both ends.
\<close>

definition lstrip :: "str \<Rightarrow> str" where
  "lstrip s = dropWhile is_space s"

definition rstrip :: "str \<Rightarrow> str" where
  "rstrip s = rev (dropWhile is_space (rev s))"

definition strip :: "str \<Rightarrow> str" where
  "strip s = rstrip (lstrip s)"

text \<open>
  \<open>str.capitalize()\<close> on the characters a matched label can hold: the first character
  in upper case, the others in lower case. Outside the ASCII letters only U+017F (long
  s) can occur in a label, and its lower case is itself; so the two maps are the
  identity outside the ASCII letters.
\<close>

definition to_upper :: "nat \<Rightarrow> nat" where
  "to_upper c = (if 97 \<le> c \<and> c \<le> 122 then c - 32 else c)"

definition to_lower :: "nat \<Rightarrow> nat" where
  "to_lower c = (if 65 \<le> c \<and> c \<le> 90 then c + 32 else c)"

fun capitalize :: "str \<Rightarrow> str" where
  "capitalize [] = []"
| "capitalize (c # cs) = to_upper c # map to_lower cs"

section \<open>The pattern of \<open>parse_script\<close>\<close>

text \<open>
  The pattern is \<open>(Host|Guest):\s*(.+?)(?=(?:Host|Guest):|$)\<close> under \<open>re.DOTALL\<close> and
  \<open>re.IGNORECASE\<close>. Under \<open>IGNORECASE\<close> a letter of the pattern matches its two ASCII
  cases, and \<open>s\<close> also matches U+017F, the one other code point with the same upper
  case; the colon matches itself only. \<open>ci_lit l c\<close>: the subject character \<open>c\<close>
  matches the pattern letter whose lower case is \<open>l\<close>.
\<close>

definition ci_lit :: "nat \<Rightarrow> nat \<Rightarrow> bool" where
  "ci_lit l c \<longleftrightarrow> c = l \<or> c + 32 = l \<or> (l = 115 \<and> c = 383)"

fun match_ci :: "str \<Rightarrow> str \<Rightarrow> str option" where
  "match_ci [] s = Some s"
| "match_ci (l # ls) [] = None"
| "match_ci (l # ls) (c # cs) = (if ci_lit l c then match_ci ls cs else None)"

definition colon :: nat where
  "colon = 58"

definition newline :: nat where
  "newline = 10"

text \<open>
  \<open>(Host|Guest):\<close> at the start of \<open>s\<close>: the matched speaker group and what follows
  the colon. The alternatives are tried in the order of the pattern.
\<close>

definition word_colon :: "string \<Rightarrow> str \<Rightarrow> (str \<times> str) option" where
  "word_colon w s =
     (case match_ci (cps w) s of
        None \<Rightarrow> None
      | Some r \<Rightarrow>
          (case r of
             [] \<Rightarrow> None
           | c # r' \<Rightarrow> if c = colon then Some (take (length w) s, r') else None))"

definition label_at :: "str \<Rightarrow> (str \<times> str) option" where
  "label_at s =
     (case word_colon ''host'' s of
        Some m \<Rightarrow> Some m
      | None \<Rightarrow> word_colon ''guest'' s)"

text \<open>
  The characters a label can start with: \<open>H\<close>, \<open>h\<close>, \<open>G\<close> and \<open>g\<close>.
\<close>

definition label_start :: "nat \<Rightarrow> bool" where
  "label_start c \<longleftrightarrow> c = 72 \<or> c = 104 \<or> c = 71 \<or> c = 103"

text \<open>
  The lookahead \<open>(?=(?:Host|Guest):|$)\<close>. Without \<open>re.MULTILINE\<close>, \<open>$\<close> holds at the
  end of the string and just before a newline that ends the string.
\<close>

definition lookahead :: "str \<Rightarrow> bool" where
  "lookahead s \<longleftrightarrow> label_at s \<noteq> None \<or> s = [] \<or> s = [newline]"

text \<open>
  \<open>(.+?)\<close> before the lookahead: with \<open>DOTALL\<close> the dot takes any character; at least
  one is taken, and then as few as the lookahead allows.
\<close>

fun lazy_dot :: "str \<Rightarrow> (str \<times> str) option" where
  "lazy_dot [] = None"
| "lazy_dot (c # cs) =
     (if lookahead cs then Some ([c], cs)
      else map_option (\<lambda>(t, r). (c # t, r)) (lazy_dot cs))"

text \<open>
  \<open>\s*\<close> before it is greedy: a white space character is taken when the rest of the
  pattern then matches, and is left to the text group otherwise.
\<close>

fun ws_then_text :: "str \<Rightarrow> (str \<times> str) option" where
  "ws_then_text [] = None"
| "ws_then_text (c # cs) =
     (if is_space c then
        (case ws_then_text cs of
           Some m \<Rightarrow> Some m
         | None \<Rightarrow> lazy_dot (c # cs))
      else lazy_dot (c # cs))"

text \<open>
  One match of the whole pattern at the start of \<open>s\<close>: the two groups and the rest of
  the string after the match.
\<close>

definition match_at :: "str \<Rightarrow> (str \<times> str \<times> str) option" where
  "match_at s =
     (case label_at s of
        None \<Rightarrow> None
      | Some (speaker, r) \<Rightarrow> map_option (\<lambda>(t, rest). (speaker, t, rest)) (ws_then_text r))"

text \<open>
  \<open>re.findall\<close>: the string is scanned from the left; where the pattern matches, the
  groups are collected and the scan goes on after the match; elsewhere it goes on one
  character further.
\<close>

function findall :: "str \<Rightarrow> (str \<times> str) list" where
  "findall [] = []"
| "findall (c # cs) =
     (case match_at (c # cs) of
        None \<Rightarrow> findall cs
      | Some (speaker, t, rest) \<Rightarrow> (speaker, t) # findall rest)"
  by pat_completeness auto

lemma lazy_dot_suffix:
  "lazy_dot s = Some (t, r) \<Longrightarrow> s = t @ r \<and> t \<noteq> []"
proof (induction s arbitrary: t r)
  case Nil
  then show ?case by simp
next
  case (Cons c cs)
  show ?case
  proof (cases "lookahead cs")
    case True
    with Cons.prems show ?thesis by auto
  next
    case False
    with Cons.prems obtain t' where "lazy_dot cs = Some (t', r)" and "t = c # t'"
      by auto
    with Cons.IH show ?thesis by auto
  qed
qed

lemma ws_then_text_suffix:
  "ws_then_text s = Some (t, r) \<Longrightarrow> \<exists>ws. s = ws @ t @ r \<and> t \<noteq> [] \<and> (\<forall>c\<in>set ws. is_space c)"
proof (induction s arbitrary: t r)
  case Nil
  then show ?case by simp
next
  case (Cons c cs)
  show ?case
  proof (cases "is_space c \<and> ws_then_text cs \<noteq> None")
    case True
    with Cons.prems have "ws_then_text cs = Some (t, r)" by auto
    from Cons.IH [OF this] obtain ws where
      "cs = ws @ t @ r" "t \<noteq> []" "\<forall>c\<in>set ws. is_space c" by blast
    with True have "c # cs = (c # ws) @ t @ r \<and> t \<noteq> [] \<and> (\<forall>x\<in>set (c # ws). is_space x)"
      by simp
    then show ?thesis by blast
  next
    case False
    with Cons.prems have "lazy_dot (c # cs) = Some (t, r)"
      by (auto split: if_splits option.splits)
    from lazy_dot_suffix [OF this] have "c # cs = [] @ t @ r \<and> t \<noteq> []" by simp
    then show ?thesis by (metis empty_iff list.set(1))
  qed
qed

lemma word_colon_split:
  "word_colon w s = Some (sp, r) \<Longrightarrow> s = sp @ colon # r \<and> length sp = length w"
proof -
  have m: "match_ci p x = Some y \<Longrightarrow> x = take (length p) x @ y \<and> length p \<le> length x"
    for p x y
    by (induction p x rule: match_ci.induct) (auto split: if_splits)
  assume a: "word_colon w s = Some (sp, r)"
  then obtain q where q: "match_ci (cps w) s = Some q" and q': "q = colon # r"
    and sp: "sp = take (length w) s"
    by (auto simp: word_colon_def split: option.splits list.splits if_splits)
  from m [OF q] have "s = take (length w) s @ q" "length w \<le> length s"
    by (simp_all add: cps_def)
  with q' sp show ?thesis by simp
qed

lemma label_at_split:
  "label_at s = Some (sp, r) \<Longrightarrow> s = sp @ colon # r \<and> (length sp = 4 \<or> length sp = 5)"
  by (auto simp: label_at_def split: option.splits dest!: word_colon_split)

lemma match_at_shorter:
  "match_at s = Some (sp, t, rest) \<Longrightarrow> length rest < length s"
  by (auto simp: match_at_def split: option.splits
      dest!: label_at_split ws_then_text_suffix)

termination findall
  by (relation "measure length") (auto dest: match_at_shorter)

text \<open>
  \<open>parse_script\<close>: every match whose text is not empty once stripped gives a turn, the
  speaker capitalised and the text stripped.
\<close>

definition parse_script :: "str \<Rightarrow> (str \<times> str) list" where
  "parse_script script =
     map (\<lambda>(speaker, t). (capitalize speaker, strip t))
       (filter (\<lambda>(speaker, t). strip t \<noteq> []) (findall script))"

section \<open>Speech and audio\<close>

text \<open>
  The voices of the two speakers, and the choice between them in the loop of
  \<open>generate_podcast_audio\<close>: \<open>HOST_VOICE if speaker == "Host" else GUEST_VOICE\<close>.
\<close>

definition HOST_VOICE :: str where
  "HOST_VOICE = cps ''ko-KR-InJoonNeural''"

definition GUEST_VOICE :: str where
  "GUEST_VOICE = cps ''ko-KR-SunHiNeural''"

definition resolve_voice :: "str \<Rightarrow> str" where
  "resolve_voice speaker = (if speaker = cps ''Host'' then HOST_VOICE else GUEST_VOICE)"

text \<open>
  The rate that \<open>_generate_single_audio\<close> passes to \<open>edge_tts.Communicate\<close>.
\<close>

definition RATE :: str where
  "RATE = cps ''+20%''"

text \<open>
  An encoded file is a list of bytes. A decoded \<open>AudioSegment\<close> is its frame rate, in
  frames a second, and its frames (one channel, a frame a sample).
\<close>

type_synonym mp3 = "nat list"

record AudioSegment =
  frame_rate :: nat
  frames :: "int list"

text \<open>
  \<open>AudioSegment.silent(duration=d)\<close>: \<open>int(frame_rate * (d / 1000.0))\<close> frames of silence at
  the default rate of 11025 frames a second.
\<close>

definition silent :: "nat \<Rightarrow> AudioSegment" where
  "silent duration = \<lparr>frame_rate = 11025, frames = replicate (11025 * duration div 1000) 0\<rparr>"

text \<open>
  The duration that pydub reports, \<open>len(segment)\<close>, is
  \<open>round(1000 * (frame_count / frame_rate))\<close>, a whole number of milliseconds:
  \<open>round_div n r\<close> is Python's \<open>round\<close> of \<open>n / r\<close>, to the nearest integer and to the
  even one of the two when \<open>n / r\<close> lies half way. So the duration of \<open>a + b\<close> need not be
  the sum of the durations of \<open>a\<close> and \<open>b\<close>.
\<close>

definition round_div :: "nat \<Rightarrow> nat \<Rightarrow> nat" where
  "round_div n r =
     (let q = n div r; m = n mod r in
      if 2 * m < r then q else if r < 2 * m then q + 1 else if even q then q else q + 1)"

definition len_ms :: "AudioSegment \<Rightarrow> nat" where
  "len_ms segment = round_div (1000 * length (frames segment)) (frame_rate segment)"

text \<open>
  The exceptions of a run: the \<open>ValueError\<close> and the \<open>RuntimeError\<close> that
  \<open>generate_podcast_audio\<close> raises itself, whatever the speech service or the encoder
  raises (\<open>ServiceError\<close>, passed on as it is), and the error of \<open>os.listdir\<close>,
  \<open>os.remove\<close> and \<open>os.rmdir\<close>.
\<close>

datatype exn = ValueError str | RuntimeError str | ServiceError str | OSError

definition parse_error_message :: str where
  "parse_error_message =
     [45824, 48376, 51012] @ cps '' '' @ [54028, 49905, 54624] @ cps '' '' @ [49688] @ cps '' '' @
     [50630, 49845, 45768, 45796] @ cps ''. '' @ [50732, 48148, 47480] @ cps '' '' @
     [54805, 49885, 51064, 51648] @ cps '' '' @ [54869, 51064, 54644, 51452, 49464, 50836] @ cps ''.''"

text \<open>
  The message of the \<open>RuntimeError\<close> raised when a segment cannot be loaded; \<open>e\<close> is
  \<open>str(e)\<close> of the exception caught. Its first line says that the audio could not be
  processed and asks to check that ffmpeg is installed; the two lines after it give
  the command that installs it on a Mac and on Ubuntu; the last line gives \<open>e\<close>.
\<close>

definition install_line :: "str \<Rightarrow> str \<Rightarrow> str" where
  "install_line system command =
     [49444, 52824] @ cps '' '' @ [48169, 48277] @ cps '' ('' @ system @ cps ''): '' @ command"

definition decode_error_message :: "str \<Rightarrow> str" where
  "decode_error_message e =
     ([50724, 46356, 50724] @ cps '' '' @ [52376, 47532] @ cps '' '' @ [51473] @ cps '' '' @
      [50724, 47448, 44032] @ cps '' '' @ [48156, 49373, 54664, 49845, 45768, 45796] @ cps ''. '' @
      cps ''ffmpeg'' @ [44032] @ cps '' '' @ [49444, 52824, 46104, 50612] @ cps '' '' @
      [51080, 45716, 51648] @ cps '' '' @ [54869, 51064, 54644, 51452, 49464, 50836] @ cps ''.'' @
      [newline]) @
     (install_line (cps ''Mac'') (cps ''brew install ffmpeg'') @ [newline]) @
     (install_line (cps ''Ubuntu'') (cps ''sudo apt-get install ffmpeg'') @ [newline]) @
     ([50724, 47448] @ cps '' '' @ [49345, 49464] @ cps '': '' @ e)"

section \<open>The world outside the program\<close>

text \<open>
  What the libraries do is a parameter of the model. \<open>speech\<close> is
  \<open>Communicate(text, voice, rate).save(path)\<close>: it writes a file, or raises, and may
  then have left a file behind; its first argument is the index \<open>i\<close> of the path
  \<open>segment_i.mp3\<close>. \<open>decode\<close> is \<open>AudioSegment.from_mp3\<close> on the content of a file
  (\<open>None\<close>: no such file), raising with a text or giving the segment.
  \<open>ratecv\<close> is \<open>audioop.ratecv\<close>, which brings frames from one frame rate to another.
  \<open>export_error\<close> tells whether \<open>export\<close> raises on a segment, and with what at the
  output path then. \<open>listdir_fails\<close>, \<open>remove_fails\<close> and \<open>rmdir_fails\<close> tell whether
  \<open>os.listdir\<close> raises on the temporary directory and which removals raise.
\<close>

datatype tts_result = Saved mp3 | Failed str "mp3 option"

record env =
  speech :: "nat \<Rightarrow> str \<Rightarrow> str \<Rightarrow> str \<Rightarrow> tts_result"
  decode :: "mp3 option \<Rightarrow> str + AudioSegment"
  ratecv :: "nat \<Rightarrow> nat \<Rightarrow> int list \<Rightarrow> int list"
  export_error :: "AudioSegment \<Rightarrow> (str \<times> AudioSegment option) option"
  listdir_fails :: bool
  remove_fails :: "nat \<Rightarrow> bool"
  rmdir_fails :: bool

text \<open>
  The state a run acts on: its temporary directory (\<open>None\<close> when there is none, or
  its files \<open>segment_i.mp3\<close> by index), the file at the output path (the audio it
  encodes), and the requests made to the speech service so far (text, voice, rate).
\<close>

record world =
  tmp :: "(nat \<times> mp3) list option"
  dest :: "AudioSegment option"
  requests :: "(str \<times> str \<times> str) list"

definition mkdtemp :: "world \<Rightarrow> world" where
  "mkdtemp w = w\<lparr>tmp := Some []\<rparr>"

definition write_tmp :: "nat \<Rightarrow> mp3 \<Rightarrow> world \<Rightarrow> world" where
  "write_tmp f b w = w\<lparr>tmp := map_option (AList.update f b) (tmp w)\<rparr>"

definition read_tmp :: "nat \<Rightarrow> world \<Rightarrow> mp3 option" where
  "read_tmp f w = (case tmp w of None \<Rightarrow> None | Some fs \<Rightarrow> map_of fs f)"

definition os_listdir :: "env \<Rightarrow> world \<Rightarrow> exn + nat list" where
  "os_listdir E w =
     (case tmp w of
        None \<Rightarrow> Inl OSError
      | Some fs \<Rightarrow> if listdir_fails E then Inl OSError else Inr (map fst fs))"

definition os_remove :: "env \<Rightarrow> nat \<Rightarrow> world \<Rightarrow> exn + world" where
  "os_remove E f w =
     (case tmp w of
        None \<Rightarrow> Inl OSError
      | Some fs \<Rightarrow>
          if remove_fails E f \<or> f \<notin> fst ` set fs then Inl OSError
          else Inr (w\<lparr>tmp := Some (AList.delete f fs)\<rparr>))"

definition os_rmdir :: "env \<Rightarrow> world \<Rightarrow> exn + world" where
  "os_rmdir E w =
     (case tmp w of
        None \<Rightarrow> Inl OSError
      | Some fs \<Rightarrow>
          if rmdir_fails E \<or> fs \<noteq> [] then Inl OSError
          else Inr (w\<lparr>tmp := None\<rparr>))"

section \<open>\<open>generate_podcast_audio\<close>\<close>

definition generate_single_audio :: "env \<Rightarrow> str \<Rightarrow> str \<Rightarrow> nat \<Rightarrow> world \<Rightarrow> (exn + unit) \<times> world" where
  "generate_single_audio E text voice output_path w =
     (let w1 = w\<lparr>requests := requests w @ [(text, voice, RATE)]\<rparr> in
      case speech E output_path text voice RATE of
        Saved b \<Rightarrow> (Inr (), write_tmp output_path b w1)
      | Failed e left \<Rightarrow>
          (Inl (ServiceError e),
           case left of None \<Rightarrow> w1 | Some b \<Rightarrow> write_tmp output_path b w1))"

text \<open>
  One round of the loop over the turns: the voice, the file \<open>segment_i.mp3\<close>, the
  request, and the segment and its pause of 500 ms appended to \<open>audio_segments\<close>, or the
  \<open>RuntimeError\<close> when the file cannot be loaded.
\<close>

definition synth_turn ::
  "env \<Rightarrow> nat \<Rightarrow> str \<times> str \<Rightarrow> AudioSegment list \<Rightarrow> world \<Rightarrow> (exn + AudioSegment list) \<times> world" where
  "synth_turn E i turn audio_segments w =
     (case turn of (speaker, text) \<Rightarrow>
        (let voice = resolve_voice speaker; temp_file = i in
         case generate_single_audio E text voice temp_file w of
           (Inl e, w') \<Rightarrow> (Inl e, w')
         | (Inr u, w') \<Rightarrow>
             (case decode E (read_tmp temp_file w') of
                Inl e \<Rightarrow> (Inl (RuntimeError (decode_error_message e)), w')
              | Inr segment \<Rightarrow>
                  (Inr (audio_segments @ [segment] @ [silent 500]), w'))))"

text \<open>
  The segment that the turn of index \<open>i\<close> gives when the speech service saves a file
  and the file can be loaded; \<open>None\<close> when one of the two fails.
\<close>

definition turn_audio :: "env \<Rightarrow> nat \<Rightarrow> str \<times> str \<Rightarrow> AudioSegment option" where
  "turn_audio E i turn =
     (case turn of (speaker, text) \<Rightarrow>
        (case speech E i text (resolve_voice speaker) RATE of
           Saved b \<Rightarrow> (case decode E (Some b) of Inl e \<Rightarrow> None | Inr segment \<Rightarrow> Some segment)
         | Failed e left \<Rightarrow> None))"

text \<open>
  The request that the turn makes to the speech service.
\<close>

definition request_of :: "str \<times> str \<Rightarrow> str \<times> str \<times> str" where
  "request_of turn = (case turn of (speaker, text) \<Rightarrow> (text, resolve_voice speaker, RATE))"

fun synth_loop ::
  "env \<Rightarrow> nat \<Rightarrow> (str \<times> str) list \<Rightarrow> AudioSegment list \<Rightarrow> world \<Rightarrow> (exn + AudioSegment list) \<times> world" where
  "synth_loop E i [] audio_segments w = (Inr audio_segments, w)"
| "synth_loop E i (turn # turns) audio_segments w =
     (case synth_turn E i turn audio_segments w of
        (Inl e, w') \<Rightarrow> (Inl e, w')
      | (Inr audio_segments', w') \<Rightarrow> synth_loop E (Suc i) turns audio_segments' w')"

text \<open>
  \<open>a + b\<close> on segments: pydub brings the two to the higher of their frame rates
  (\<open>set_frame_rate\<close>, which leaves a segment of that rate as it is and converts no empty
  segment) and joins their frames.
\<close>

definition set_frame_rate :: "env \<Rightarrow> nat \<Rightarrow> AudioSegment \<Rightarrow> AudioSegment" where
  "set_frame_rate E rate segment =
     (if rate = frame_rate segment then segment
      else \<lparr>frame_rate = rate,
            frames = (if frames segment = [] then []
                      else ratecv E (frame_rate segment) rate (frames segment))\<rparr>)"

definition append_segment :: "env \<Rightarrow> AudioSegment \<Rightarrow> AudioSegment \<Rightarrow> AudioSegment" where
  "append_segment E a b =
     (let rate = max (frame_rate a) (frame_rate b) in
      \<lparr>frame_rate = rate,
       frames = frames (set_frame_rate E rate a) @ frames (set_frame_rate E rate b)\<rparr>)"

text \<open>
  The frames of the pause of 500 ms, as it stands in a sum of the frame rate \<open>rate\<close>.
\<close>

definition pause :: "env \<Rightarrow> nat \<Rightarrow> int list" where
  "pause E rate = frames (set_frame_rate E rate (silent 500))"

text \<open>
  The block that combines the segments and exports the result: nothing is written
  when the list is empty, and the output path is returned all the same.
\<close>

definition combine_export ::
  "env \<Rightarrow> AudioSegment list \<Rightarrow> str \<Rightarrow> world \<Rightarrow> (exn + str) \<times> world" where
  "combine_export E audio_segments output_path w =
     (if audio_segments \<noteq> [] then
        (let combined = foldl (append_segment E) (hd audio_segments) (tl audio_segments) in
         case export_error E combined of
           None \<Rightarrow> (Inr output_path, w\<lparr>dest := Some combined\<rparr>)
         | Some (e, left) \<Rightarrow> (Inl (ServiceError e), w\<lparr>dest := left\<rparr>))
      else (Inr output_path, w))"

text \<open>
  The \<open>finally\<close> block. \<open>swallow\<close> is \<open>try: ... except: pass\<close> around one removal;
  \<open>os.listdir\<close> stands outside of any \<open>try\<close>, and what it raises leaves the block.
\<close>

definition swallow :: "exn + world \<Rightarrow> world \<Rightarrow> world" where
  "swallow r w = (case r of Inl e \<Rightarrow> w | Inr w' \<Rightarrow> w')"

definition cleanup :: "env \<Rightarrow> world \<Rightarrow> exn option \<times> world" where
  "cleanup E w =
     (case os_listdir E w of
        Inl e \<Rightarrow> (Some e, w)
      | Inr fs \<Rightarrow>
          (let w1 = fold (\<lambda>f v. swallow (os_remove E f v) v) fs w
           in (None, swallow (os_rmdir E w1) w1)))"

text \<open>
  The whole function. An exception that leaves the \<open>finally\<close> block replaces the
  outcome of the \<open>try\<close> block.
\<close>

definition generate_podcast_audio :: "env \<Rightarrow> str \<Rightarrow> str \<Rightarrow> world \<Rightarrow> (exn + str) \<times> world" where
  "generate_podcast_audio E script output_path w =
     (let parsed_script = parse_script script in
      if parsed_script = [] then (Inl (ValueError parse_error_message), w)
      else
        (let w1 = mkdtemp w;
             (r, w2) =
               (case synth_loop E 0 parsed_script [] w1 of
                  (Inl e, w') \<Rightarrow> (Inl e, w')
                | (Inr audio_segments, w') \<Rightarrow> combine_export E audio_segments output_path w');
             (c, w3) = cleanup E w2
         in (case c of Some e \<Rightarrow> (Inl e, w3) | None \<Rightarrow> (r, w3))))"

section \<open>Concrete surroundings\<close>

text \<open>
  A speech service that returns the text as the file, a decoder that reads each byte
  as a frame, at 24000 frames a second, a rate conversion that gives silence of the
  same duration (rounded down to a frame), and a directory that can be listed and
  removed; the same with no decoder at all, with a decoder that fails on one file, and
  with an \<open>os.listdir\<close> that fails; and a world with no temporary directory and no
  output file.
\<close>

definition demo_env :: env where
  "demo_env =
     \<lparr>speech = (\<lambda>i text voice rate. Saved text),
      decode = (\<lambda>f. case f of None \<Rightarrow> Inl []
                            | Some b \<Rightarrow> Inr \<lparr>frame_rate = 24000, frames = map int b\<rparr>),
      ratecv = (\<lambda>rate rate' fs. replicate (length fs * rate' div rate) 0),
      export_error = (\<lambda>a. None),
      listdir_fails = False,
      remove_fails = (\<lambda>f. False),
      rmdir_fails = False\<rparr>"

definition no_decoder_env :: env where
  "no_decoder_env = demo_env\<lparr>decode := (\<lambda>f. Inl (cps ''ffmpeg''))\<rparr>"

definition bad_file_env :: env where
  "bad_file_env =
     demo_env\<lparr>decode := (\<lambda>f. if f = Some (cps ''Hello'') then Inl (cps ''ffmpeg'')
                             else decode demo_env f)\<rparr>"

definition failing_listdir_env :: env where
  "failing_listdir_env = demo_env\<lparr>listdir_fails := True\<rparr>"

definition empty_world :: world where
  "empty_world = \<lparr>tmp = None, dest = None, requests = []\<rparr>"

text \<open>
  Two scripts, of two and of three turns, a script whose second turn is the host's,
  with the label written with U+017F (long s), and a script of that one turn.
\<close>

definition two_turns :: str where
  "two_turns = cps ''Host: Hi'' @ [newline] @ cps ''Guest: Hello''"

definition long_s_turns :: str where
  "long_s_turns = cps ''Host: Hi'' @ [newline] @ cps ''Ho'' @ [383] @ cps ''t: Bye''"

definition long_s_turn :: str where
  "long_s_turn = cps ''Ho'' @ [383] @ cps ''t: hi''"

definition three_turns :: str where
  "three_turns = cps ''Host: Hi'' @ [newline] @ cps ''Guest: Hello'' @ [newline] @ cps ''Host: Bye''"

section \<open>Evaluation\<close>

lemma cps_simps:
  "cps [] = []"
  "cps (c # cs) = of_char c # cps cs"
  by (simp_all add: cps_def)

lemmas parse_eval =
  cps_simps label_at_def word_colon_def ci_lit_def colon_def newline_def lookahead_def
  match_at_def is_space_def parse_script_def strip_def lstrip_def rstrip_def
  to_upper_def to_lower_def

lemmas run_eval =
  generate_podcast_audio_def synth_turn_def generate_single_audio_def combine_export_def
  cleanup_def swallow_def os_listdir_def os_remove_def os_rmdir_def mkdtemp_def
  write_tmp_def read_tmp_def demo_env_def no_decoder_env_def bad_file_env_def
  failing_listdir_env_def empty_world_def turn_audio_def request_of_def
  resolve_voice_def HOST_VOICE_def GUEST_VOICE_def RATE_def

lemma parse_example:
  "parse_script (cps ''Host: Hi'' @ [newline] @ cps ''Guest: Hello'' @ [newline] @ cps ''Host: Bye'')
     = [(cps ''Host'', cps ''Hi''), (cps ''Guest'', cps ''Hello''), (cps ''Host'', cps ''Bye'')]"
  by (simp add: parse_eval)

section \<open>Speaker labels\<close>

text \<open>
  Claim C1 says that every speaker label comes out of \<open>parse_script\<close> as exactly
  \<open>Host\<close> or \<open>Guest\<close>. The pattern is matched under \<open>re.IGNORECASE\<close>, where the letter
  \<open>s\<close> also matches U+017F (long s), and \<open>capitalize\<close> leaves that character as it is:
  on the script \<open>Ho\<close>, U+017F, \<open>t: hi\<close> the one turn returned has the speaker \<open>Ho\<close>,
  U+017F, \<open>t\<close>, which is neither of the two labels, and whose voice is then the one of
  the guest.
\<close>

theorem parse_long_s_label:
  "parse_script (cps ''Ho'' @ [383] @ cps ''t: hi'') = [(cps ''Ho'' @ [383] @ cps ''t'', cps ''hi'')]
   \<and> cps ''Ho'' @ [383] @ cps ''t'' \<noteq> cps ''Host''
   \<and> resolve_voice (cps ''Ho'' @ [383] @ cps ''t'') = GUEST_VOICE"
  by (simp add: parse_eval resolve_voice_def)

section \<open>A script with no turns\<close>

text \<open>
  Claim C2, as amended: \<open>parse_script\<close> itself raises nothing and returns the empty
  list; it is \<open>generate_podcast_audio\<close> that then raises the \<open>ValueError\<close>, before the
  temporary directory is made and before any request to the speech service, so that
  the world is left as it was.
\<close>

theorem empty_parse_is_value_error:
  "parse_script script = [] \<Longrightarrow>
     generate_podcast_audio E script output_path w = (Inl (ValueError parse_error_message), w)"
  by (simp add: generate_podcast_audio_def)

theorem empty_parse_is_value_error_witness:
  "parse_script (cps ''no labels here'') = [] \<and>
   generate_podcast_audio demo_env (cps ''no labels here'') (cps ''podcast.mp3'') empty_world
     = (Inl (ValueError parse_error_message), empty_world)"
proof -
  have h: "parse_script (cps ''no labels here'') = []"
    by (simp add: parse_eval)
  from empty_parse_is_value_error [OF h, of demo_env "cps ''podcast.mp3''" empty_world] h
  show ?thesis by simp
qed

text \<open>
  The claim as it stands fails: on the empty script and on \<open>no labels here\<close> the parser
  returns the empty sequence.
\<close>

theorem parse_returns_empty_list:
  "parse_script [] = [] \<and> parse_script (cps ''no labels here'') = []"
  by (simp add: parse_eval)

section \<open>Labels inside a text\<close>

lemma match_ci_append:
  "match_ci p u = Some y \<Longrightarrow> match_ci p (u @ r) = Some (y @ r)"
  by (induction p u rule: match_ci.induct) (auto split: if_splits)

lemma word_colon_append:
  "word_colon w u = Some (sp, y) \<Longrightarrow> word_colon w (u @ r) = Some (sp, y @ r)"
proof -
  assume a: "word_colon w u = Some (sp, y)"
  then obtain q where q: "match_ci (cps w) u = Some q" "q = colon # y" "sp = take (length w) u"
    by (auto simp: word_colon_def split: option.splits list.splits if_splits)
  from word_colon_split [OF a] have "length w \<le> length u" by auto
  with q match_ci_append [OF q(1), of r] show ?thesis
    by (simp add: word_colon_def)
qed

lemma label_at_append:
  "label_at u \<noteq> None \<Longrightarrow> label_at (u @ r) \<noteq> None"
proof -
  assume "label_at u \<noteq> None"
  then obtain w sp y where "word_colon w u = Some (sp, y)" and w: "w = ''host'' \<or> w = ''guest''"
    by (auto simp: label_at_def split: option.splits)
  from word_colon_append [OF this(1), of r] w show ?thesis
    by (auto simp: label_at_def split: option.splits)
qed

lemma label_at_take:
  "label_at (take m u) \<noteq> None \<Longrightarrow> label_at u \<noteq> None"
  using label_at_append [of "take m u" "drop m u"] by simp

lemma label_at_Nil [simp]: "label_at [] = None"
  by (simp add: label_at_def word_colon_def cps_def)

lemma lazy_dot_no_label:
  "lazy_dot s = Some (t, r) \<Longrightarrow> 0 < j \<Longrightarrow> j < length t \<Longrightarrow> label_at (drop j s) = None"
proof (induction s arbitrary: t r j)
  case Nil
  then show ?case by simp
next
  case (Cons c cs)
  show ?case
  proof (cases "lookahead cs")
    case True
    with Cons.prems show ?thesis by auto
  next
    case False
    with Cons.prems obtain t' where t': "lazy_dot cs = Some (t', r)" "t = c # t'"
      by auto
    show ?thesis
    proof (cases j)
      case 0
      with Cons.prems show ?thesis by simp
    next
      case (Suc k)
      show ?thesis
      proof (cases k)
        case 0
        with \<open>j = Suc k\<close> False show ?thesis by (cases "label_at cs") (auto simp: lookahead_def)
      next
        case (Suc k')
        with \<open>j = Suc k\<close> Cons.prems t' Cons.IH [OF t'(1), of k] show ?thesis by simp
      qed
    qed
  qed
qed

lemma ws_then_text_lazy:
  "ws_then_text s = Some m \<Longrightarrow> \<exists>u. lazy_dot u = Some m"
proof (induction s)
  case Nil
  then show ?case by simp
next
  case (Cons c cs)
  show ?case
  proof (cases "is_space c \<and> ws_then_text cs \<noteq> None")
    case True
    with Cons show ?thesis by auto
  next
    case False
    with Cons.prems have "lazy_dot (c # cs) = Some m"
      by (auto simp del: lazy_dot.simps split: if_splits option.splits)
    then show ?thesis by blast
  qed
qed

lemma findall_text_no_label:
  "(sp, t) \<in> set (findall s) \<Longrightarrow> 0 < j \<Longrightarrow> label_at (drop j t) = None"
proof (induction s rule: findall.induct)
  case 1
  then show ?case by simp
next
  case (2 c cs)
  show ?case
  proof (cases "match_at (c # cs)")
    case None
    with 2 show ?thesis by simp
  next
    case (Some m)
    obtain sp0 t0 rest where m: "m = (sp0, t0, rest)" by (cases m)
    show ?thesis
    proof (cases "(sp, t) = (sp0, t0)")
      case False
      with 2 Some m show ?thesis by auto
    next
      case True
      from Some m obtain x where "ws_then_text x = Some (t0, rest)"
        by (auto simp: match_at_def split: option.splits)
      then obtain u where u: "lazy_dot u = Some (t0, rest)"
        using ws_then_text_lazy by blast
      from lazy_dot_suffix [OF u] have us: "u = t0 @ rest" by simp
      show ?thesis
      proof (cases "j < length t0")
        case True
        from lazy_dot_no_label [OF u \<open>0 < j\<close> True] us
        have "label_at (drop j t0 @ rest) = None" using True by simp
        with label_at_append [of "drop j t0" rest] have "label_at (drop j t0) = None"
          by (cases "label_at (drop j t0)") auto
        with \<open>(sp, t) = (sp0, t0)\<close> show ?thesis by simp
      next
        case False
        with \<open>(sp, t) = (sp0, t0)\<close> show ?thesis by simp
      qed
    qed
  qed
qed

lemma strip_take_drop: "\<exists>a n. strip t = take n (drop a t)"
proof -
  have r: "\<exists>n. rev (dropWhile P (rev u)) = take n u" for P and u :: "nat list"
  proof -
    have "rev u = takeWhile P (rev u) @ dropWhile P (rev u)" by simp
    then have "u = rev (dropWhile P (rev u)) @ rev (takeWhile P (rev u))"
      by (metis rev_append rev_rev_ident)
    then have "take (length (rev (dropWhile P (rev u)))) u = rev (dropWhile P (rev u))"
      by (metis append_eq_conv_conj)
    then show ?thesis by metis
  qed
  have "lstrip t = drop (length (takeWhile is_space t)) t"
    by (simp add: lstrip_def dropWhile_eq_drop)
  with r [of is_space "lstrip t"] show ?thesis
    by (metis strip_def rstrip_def)
qed

text \<open>
  A label is recognised at any position of the script, and one that stands after the
  first character of a turn's text ends that text: the text of a returned turn holds no
  label after its first character.
\<close>

lemma label_only_at_text_start:
  "(speaker, text) \<in> set (parse_script script) \<Longrightarrow> 0 < j \<Longrightarrow> label_at (drop j text) = None"
proof -
  assume a: "(speaker, text) \<in> set (parse_script script)" and j: "0 < j"
  then obtain sp t where t: "(sp, t) \<in> set (findall script)" "text = strip t"
    by (auto simp: parse_script_def)
  obtain a n where an: "strip t = take n (drop a t)" using strip_take_drop by blast
  have "drop j text = take (n - j) (drop (j + a) t)"
    by (simp add: t an drop_take add.commute)
  moreover have "label_at (drop (j + a) t) = None"
    using findall_text_no_label [OF t(1), of "j + a"] j by simp
  ultimately show ?thesis using label_at_take by metis
qed

text \<open>
  Claim C10 says that every occurrence of a label begins a new turn, so that no text
  of a turn holds one. The lookahead of the pattern ends a text before the next label,
  and \<open>Host: a Guest: b\<close> gives the two turns; but the text group takes at least one
  character, so that a label that directly follows the colon of the label before it
  (and the white space after it) is taken for the text of that turn.
  \<open>Host:Guest: hi\<close> gives one turn, the host's, whose text is \<open>Guest: hi\<close>, and the
  guest's turn is lost; so does a host's line left empty before the line of the guest.
\<close>

theorem label_inside_text:
  "parse_script (cps ''Host:Guest: hi'') = [(cps ''Host'', cps ''Guest: hi'')]
   \<and> label_at (cps ''Guest: hi'') = Some (cps ''Guest'', cps '' hi'')
   \<and> parse_script (cps ''Host:'' @ [newline] @ cps ''Guest: hi'') = [(cps ''Host'', cps ''Guest: hi'')]
   \<and> parse_script (cps ''Host: a Guest: b'') = [(cps ''Host'', cps ''a''), (cps ''Guest'', cps ''b'')]"
  by (simp add: parse_eval)

section \<open>Text before the first label and after the last\<close>

lemma findall_skip:
  "(\<forall>j<p. label_at (drop j s) = None) \<Longrightarrow> findall s = findall (drop p s)"
proof (induction p arbitrary: s)
  case 0
  then show ?case by simp
next
  case (Suc p)
  show ?case
  proof (cases s)
    case Nil
    then show ?thesis by simp
  next
    case (Cons c cs)
    from Suc.prems have "label_at (drop 0 s) = None" by blast
    then have m: "match_at (c # cs) = None" by (simp add: Cons match_at_def)
    have "\<forall>j<p. label_at (drop j cs) = None"
    proof (intro allI impI)
      fix j assume "j < p"
      then have "label_at (drop (Suc j) s) = None" using Suc.prems by blast
      then show "label_at (drop j cs) = None" by (simp add: Cons)
    qed
    from Suc.IH [OF this] m show ?thesis by (simp add: Cons)
  qed
qed

lemma findall_no_label:
  "(\<forall>j. label_at (drop j s) = None) \<Longrightarrow> findall s = []"
  using findall_skip [of "length s" s] by simp

lemma lazy_dot_Cons: "lazy_dot (c # cs) \<noteq> None"
proof (induction cs arbitrary: c)
  case Nil
  then show ?case by (simp add: lookahead_def)
next
  case (Cons d ds)
  from Cons [of d] show ?case by (cases "lookahead (d # ds)") auto
qed

lemma ws_then_text_None: "ws_then_text r = None \<Longrightarrow> r = []"
proof (cases r)
  case Nil
  then show ?thesis by simp
next
  case (Cons c cs)
  assume "ws_then_text r = None"
  with Cons lazy_dot_Cons [of c cs] show ?thesis
    by (auto simp del: lazy_dot.simps split: if_splits option.splits)
qed

lemma lazy_dot_lookahead: "lazy_dot s = Some (t, r) \<Longrightarrow> lookahead r"
  by (induction s arbitrary: t r) (auto split: if_splits)

lemma strip_decomp:
  "\<exists>a b. u = a @ strip u @ b \<and> (\<forall>c\<in>set a. is_space c) \<and> (\<forall>c\<in>set b. is_space c)"
proof -
  let ?v = "dropWhile is_space u"
  have 1: "u = takeWhile is_space u @ ?v" by simp
  have "rev ?v = takeWhile is_space (rev ?v) @ dropWhile is_space (rev ?v)" by simp
  then have 2: "?v = strip u @ rev (takeWhile is_space (rev ?v))"
    unfolding strip_def rstrip_def lstrip_def by (metis rev_append rev_rev_ident)
  have 3: "\<forall>c\<in>set (takeWhile is_space u). is_space c" by (auto dest: set_takeWhileD)
  have 4: "\<forall>c\<in>set (rev (takeWhile is_space (rev ?v))). is_space c"
    by (auto dest: set_takeWhileD)
  from 1 2 have "u = takeWhile is_space u @ strip u @ rev (takeWhile is_space (rev ?v))"
    by simp
  with 3 4 show ?thesis by blast
qed

lemma rstrip_keep:
  "\<forall>c\<in>set b. is_space c \<Longrightarrow> m \<noteq> [] \<Longrightarrow> \<not> is_space (last m) \<Longrightarrow> rstrip (y @ m @ b) = y @ m"
proof -
  assume b: "\<forall>c\<in>set b. is_space c" and m: "m \<noteq> []" "\<not> is_space (last m)"
  have "rev (y @ m @ b) = rev b @ rev m @ rev y" by simp
  moreover have "dropWhile is_space (rev b @ rev m @ rev y) = dropWhile is_space (rev m @ rev y)"
    using b by (simp add: dropWhile_append)
  moreover have "dropWhile is_space (rev m @ rev y) = rev m @ rev y"
  proof -
    have k: "xs \<noteq> [] \<Longrightarrow> \<not> is_space (hd xs) \<Longrightarrow> dropWhile is_space (xs @ ys) = xs @ ys"
      for xs ys :: "nat list"
      by (cases xs) auto
    from m have "rev m \<noteq> []" "\<not> is_space (hd (rev m))" by (simp_all add: hd_rev)
    then show ?thesis by (rule k)
  qed
  ultimately show ?thesis by (simp add: rstrip_def)
qed

lemma lstrip_keep:
  "m \<noteq> [] \<Longrightarrow> \<not> is_space (hd m) \<Longrightarrow> \<exists>z. lstrip (y @ m @ w) = z @ m @ w"
proof -
  assume m: "m \<noteq> []" "\<not> is_space (hd m)"
  then have "dropWhile is_space (m @ w) = m @ w" by (cases m) auto
  then show ?thesis
    by (cases "\<forall>c\<in>set y. is_space c") (auto simp: lstrip_def dropWhile_append)
qed

lemma rstrip_prefix: "\<exists>b. v = rstrip v @ b"
proof -
  have "rev v = takeWhile is_space (rev v) @ dropWhile is_space (rev v)" by simp
  then have "v = rstrip v @ rev (takeWhile is_space (rev v))"
    unfolding rstrip_def by (metis rev_append rev_rev_ident)
  then show ?thesis ..
qed

lemma strip_ends:
  "strip u \<noteq> [] \<Longrightarrow> \<not> is_space (hd (strip u)) \<and> \<not> is_space (last (strip u))"
proof -
  let ?v = "dropWhile is_space u"
  assume n: "strip u \<noteq> []"
  have s: "strip u = rev (dropWhile is_space (rev ?v))"
    by (simp only: strip_def rstrip_def lstrip_def)
  with n have d: "dropWhile is_space (rev ?v) \<noteq> []" by (metis rev_is_Nil_conv)
  from hd_dropWhile [OF d] have l: "\<not> is_space (last (strip u))"
    using d by (simp add: s last_rev)
  have v: "?v \<noteq> []"
  proof
    assume e: "?v = []"
    have "dropWhile is_space (rev ?v) = []" unfolding e by simp
    with d show False by contradiction
  qed
  from rstrip_prefix [of ?v] obtain b where "?v = strip u @ b"
    by (auto simp only: strip_def lstrip_def)
  with n have "hd (strip u) = hd ?v" by (metis hd_append2)
  with hd_dropWhile [OF v] l show ?thesis by simp
qed

lemma strip_unique:
  assumes "\<forall>c\<in>set a. is_space c" "\<forall>c\<in>set b. is_space c"
    and "m \<noteq> []" "\<not> is_space (hd m)" "\<not> is_space (last m)"
  shows "strip (a @ m @ b) = m"
proof -
  from assms(3,4) have "dropWhile is_space (m @ b) = m @ b" by (cases m) auto
  with assms(1) have "lstrip (a @ m @ b) = [] @ m @ b"
    by (simp add: lstrip_def dropWhile_append)
  with rstrip_keep [OF assms(2,3,5), of "[]"] show ?thesis
    by (simp add: strip_def)
qed

lemma strip_all_space:
  "\<forall>c\<in>set u. is_space c \<Longrightarrow> strip u = []"
proof -
  assume "\<forall>c\<in>set u. is_space c"
  then have "dropWhile is_space u = []" by simp
  then show ?thesis unfolding strip_def lstrip_def rstrip_def
    by (simp only: rev.simps dropWhile.simps)
qed

lemma strip_pad:
  assumes "\<forall>c\<in>set a. is_space c" "\<forall>c\<in>set b. is_space c"
  shows "strip (a @ x @ b) = strip x"
proof -
  from strip_decomp [of x] obtain a' b' where
    x: "x = a' @ strip x @ b'" and a': "\<forall>c\<in>set a'. is_space c" and b': "\<forall>c\<in>set b'. is_space c"
    by blast
  define m where "m = strip x"
  have xm: "x = a' @ m @ b'" using x by (simp add: m_def)
  show ?thesis
  proof (cases "m = []")
    case True
    with xm a' b' assms have "\<forall>c\<in>set (a @ x @ b). is_space c" by auto
    then have "strip (a @ x @ b) = []" by (rule strip_all_space)
    with True show ?thesis by (simp add: m_def)
  next
    case False
    then have "strip x \<noteq> []" by (simp add: m_def)
    from strip_ends [OF this] have e: "\<not> is_space (hd m)" "\<not> is_space (last m)"
      by (simp_all add: m_def)
    from assms a' b' have "\<forall>c\<in>set (a @ a'). is_space c" "\<forall>c\<in>set (b' @ b). is_space c"
      by auto
    from strip_unique [OF this False e] have "strip ((a @ a') @ m @ b' @ b) = m" .
    moreover have "(a @ a') @ m @ b' @ b = a @ x @ b" by (simp add: xm)
    ultimately show ?thesis by (metis m_def)
  qed
qed

lemma strip_suffix:
  assumes "strip r \<noteq> []"
  shows "suffix (strip r) (strip (x @ r))"
proof -
  define m where "m = strip r"
  from strip_decomp [of r] obtain a b where
    r: "r = a @ m @ b" and a: "\<forall>c\<in>set a. is_space c" and b: "\<forall>c\<in>set b. is_space c"
    unfolding m_def by blast
  from assms have m: "m \<noteq> []" by (simp add: m_def)
  from strip_ends [OF assms] have e: "\<not> is_space (hd m)" "\<not> is_space (last m)"
    by (simp_all add: m_def)
  from lstrip_keep [OF m e(1), of "x @ a" b] obtain z where
    "lstrip ((x @ a) @ m @ b) = z @ m @ b" by blast
  moreover have "(x @ a) @ m @ b = x @ r" by (simp add: r)
  ultimately have "lstrip (x @ r) = z @ m @ b" by simp
  with rstrip_keep [OF b m e(2), of z] have "strip (x @ r) = z @ m"
    by (simp add: strip_def)
  then show ?thesis by (simp add: suffix_def m_def)
qed

lemma match_ci_all:
  "match_ci p z = Some y \<Longrightarrow> list_all2 ci_lit p (take (length p) z)"
  by (induction p z rule: match_ci.induct) (auto split: if_splits)

lemma word_colon_all:
  "word_colon w z = Some (sp, r) \<Longrightarrow> list_all2 ci_lit (cps w) sp"
proof -
  assume "word_colon w z = Some (sp, r)"
  then obtain q where "match_ci (cps w) z = Some q" "sp = take (length w) z"
    by (auto simp: word_colon_def split: option.splits list.splits if_splits)
  with match_ci_all [of "cps w" z q] show ?thesis by (simp add: cps_def)
qed

lemma label_at_word:
  "label_at z = Some (sp, r) \<Longrightarrow>
     list_all2 ci_lit (cps ''host'') sp \<or> list_all2 ci_lit (cps ''guest'') sp"
  by (auto simp: label_at_def split: option.splits dest: word_colon_all)

lemma label_at_tail:
  "label_at s = Some (sp, r) \<Longrightarrow> sp \<noteq> [] \<and> (\<forall>c\<in>set (tl sp). \<not> label_start c)"
proof -
  assume "label_at s = Some (sp, r)"
  from label_at_word [OF this] show ?thesis
    by (auto simp: cps_simps list_all2_Cons1 ci_lit_def label_start_def)
qed

lemma label_at_head:
  "label_at z \<noteq> None \<Longrightarrow> z \<noteq> [] \<and> label_start (hd z)"
proof -
  assume "label_at z \<noteq> None"
  then obtain sp r where l: "label_at z = Some (sp, r)" by auto
  from label_at_split [OF l] have z: "z = sp @ colon # r" by simp
  from label_at_word [OF l] have "sp \<noteq> [] \<and> label_start (hd sp)"
    by (auto simp: cps_simps list_all2_Cons1 ci_lit_def label_start_def)
  with z show ?thesis by (metis append_is_Nil_conv hd_append2)
qed

lemma space_no_label_start: "is_space c \<Longrightarrow> \<not> label_start c"
  by (auto simp: is_space_def label_start_def)

lemma no_label_before_text:
  assumes l: "label_at s = Some (sp, r)" and ws: "\<forall>c\<in>set ws. is_space c"
    and p: "0 < p" "p < length (sp @ colon # ws)"
  shows "label_at (drop p (sp @ colon # ws @ y)) = None"
proof -
  let ?A = "sp @ colon # ws"
  from label_at_tail [OF l] have sp: "sp \<noteq> []" "\<forall>c\<in>set (tl sp). \<not> label_start c" by simp_all
  have "\<not> label_start colon" by (simp add: label_start_def colon_def)
  moreover have "tl ?A = tl sp @ colon # ws" using sp by simp
  ultimately have t: "\<forall>c\<in>set (tl ?A). \<not> label_start c"
    using sp(2) ws space_no_label_start by auto
  from p obtain k where k: "p = Suc k" by (cases p) auto
  from sp have A: "sp @ colon # ws @ y = hd sp # (tl ?A @ y)" by (cases sp) auto
  from p k sp have kl: "k < length (tl ?A)" by (cases sp) auto
  have d: "drop p (sp @ colon # ws @ y) = drop k (tl ?A) @ y"
    unfolding A k using kl by simp
  from kl have ne: "drop k (tl ?A) \<noteq> []" by simp
  have "hd (drop k (tl ?A)) = tl ?A ! k" using kl by (simp only: hd_drop_conv_nth)
  with kl have "hd (drop k (tl ?A)) \<in> set (tl ?A)" by (metis nth_mem)
  with t have "\<not> label_start (hd (drop k (tl ?A)))" by blast
  with ne have nl: "\<not> label_start (hd (drop k (tl ?A) @ y))" by (metis hd_append2)
  have "label_at (drop k (tl ?A) @ y) = None"
  proof (cases "label_at (drop k (tl ?A) @ y)")
    case None
    then show ?thesis .
  next
    case (Some a)
    then have "label_at (drop k (tl ?A) @ y) \<noteq> None" by simp
    from label_at_head [OF this] nl show ?thesis by blast
  qed
  then show ?thesis unfolding d .
qed

lemma match_at_shape:
  assumes "match_at s = Some (sp0, t0, rest)"
  shows "\<exists>ws. s = sp0 @ colon # ws @ t0 @ rest \<and> (\<forall>c\<in>set ws. is_space c) \<and> t0 \<noteq> []
           \<and> label_at s = Some (sp0, ws @ t0 @ rest)
           \<and> lazy_dot (t0 @ rest) = Some (t0, rest)"
proof -
  from assms obtain r0 where l: "label_at s = Some (sp0, r0)" and w: "ws_then_text r0 = Some (t0, rest)"
    by (auto simp: match_at_def split: option.splits)
  from label_at_split [OF l] have s: "s = sp0 @ colon # r0" by simp
  from ws_then_text_suffix [OF w] obtain ws where
    ws: "r0 = ws @ t0 @ rest" "t0 \<noteq> []" "\<forall>c\<in>set ws. is_space c" by blast
  from ws_then_text_lazy [OF w] obtain u where u: "lazy_dot u = Some (t0, rest)" by blast
  from lazy_dot_suffix [OF u] have "u = t0 @ rest" by simp
  with u s ws l show ?thesis by auto
qed

lemma last_match:
  "label_at (drop p s) = Some (spk, r) \<Longrightarrow> (\<forall>j>p. label_at (drop j s) = None) \<Longrightarrow>
   strip r \<noteq> [] \<Longrightarrow> \<exists>ms sp t. findall s = ms @ [(sp, t)] \<and> suffix (strip r) (strip t)"
proof (induction s arbitrary: p rule: findall.induct)
  case 1
  then show ?case by simp
next
  case (2 c cs)
  let ?s = "c # cs"
  show ?case
  proof (cases "match_at ?s")
    case None
    show ?thesis
    proof (cases p)
      case 0
      with "2.prems"(1) None have "ws_then_text r = None"
        by (auto simp: match_at_def split: option.splits)
      from ws_then_text_None [OF this] "2.prems"(3) show ?thesis
        by (simp add: strip_def lstrip_def rstrip_def)
    next
      case (Suc q)
      with "2.prems"(1) have a: "label_at (drop q cs) = Some (spk, r)" by simp
      have b: "\<forall>j>q. label_at (drop j cs) = None"
      proof (intro allI impI)
        fix j assume "q < j"
        then have "Suc j > p" using Suc by simp
        with "2.prems"(2) have "label_at (drop (Suc j) ?s) = None" by blast
        then show "label_at (drop j cs) = None" by simp
      qed
      from "2.IH"(1) [OF None a b "2.prems"(3)] None show ?thesis by simp
    qed
  next
    case (Some m)
    obtain sp0 t0 rest where m: "m = (sp0, t0, rest)" by (cases m)
    from Some m have ma: "match_at ?s = Some (sp0, t0, rest)" by simp
    from match_at_shape [OF ma] obtain ws where
      s: "?s = sp0 @ colon # ws @ t0 @ rest" and ws: "\<forall>c\<in>set ws. is_space c" and t0: "t0 \<noteq> []"
      and l0: "label_at ?s = Some (sp0, ws @ t0 @ rest)"
      and lz: "lazy_dot (t0 @ rest) = Some (t0, rest)"
      by blast
    define n where "n = length (sp0 @ colon # ws)"
    have fa: "findall ?s = (sp0, t0) # findall rest" using ma by simp
    have dr: "drop (n + k) ?s = drop k (t0 @ rest)" for k
      unfolding s n_def by simp
    have alone: "findall ?s = [(sp0, t0)] \<and> (rest = [] \<or> rest = [newline])"
      if "p \<le> n"
    proof -
      have "\<forall>j. label_at (drop j rest) = None"
      proof
        fix j
        have "drop (n + (length t0 + j)) ?s = drop j rest" unfolding dr by simp
        moreover have "n + (length t0 + j) > p" using that t0 by (cases t0) auto
        ultimately show "label_at (drop j rest) = None" using "2.prems"(2) by metis
      qed
      then have "findall rest = []" "label_at rest = None"
        using findall_no_label [of rest] by (auto dest: spec [of _ 0])
      with lazy_dot_lookahead [OF lz] fa show ?thesis by (auto simp: lookahead_def)
    qed
    have rs: "\<forall>c\<in>set rest. is_space c" if "rest = [] \<or> rest = [newline]"
      using that by (auto simp: is_space_def newline_def)
    consider (a) "p = 0" | (b) "0 < p" "p < n" | (c) "p = n" | (d) "n < p" "p < n + length t0"
      | (e) "n + length t0 \<le> p"
      by linarith
    then show ?thesis
    proof cases
      case a
      with "2.prems"(1) l0 have r: "r = ws @ t0 @ rest" by simp
      from alone a have f: "findall ?s = [(sp0, t0)]" and re: "rest = [] \<or> rest = [newline]"
        by simp_all
      from strip_pad [OF ws rs [OF re], of t0] r have "strip r = strip t0" by simp
      with f have "findall ?s = [] @ [(sp0, t0)] \<and> suffix (strip r) (strip t0)" by simp
      then show ?thesis by blast
    next
      case b
      from no_label_before_text [OF l0 ws b(1), of "t0 @ rest"] b(2) "2.prems"(1) s
      show ?thesis by (simp add: n_def)
    next
      case c
      from dr [of 0] c "2.prems"(1) have "label_at (t0 @ rest) = Some (spk, r)" by simp
      from label_at_split [OF this] have tr: "t0 @ rest = (spk @ [colon]) @ r" by simp
      from alone c have f: "findall ?s = [(sp0, t0)]" and re: "rest = [] \<or> rest = [newline]"
        by simp_all
      have "strip ([] @ t0 @ rest) = strip t0" by (rule strip_pad) (use rs [OF re] in auto)
      with tr have "strip t0 = strip ((spk @ [colon]) @ r)" by simp
      with strip_suffix [OF "2.prems"(3), of "spk @ [colon]"] have "suffix (strip r) (strip t0)"
        by simp
      with f have "findall ?s = [] @ [(sp0, t0)] \<and> suffix (strip r) (strip t0)" by simp
      then show ?thesis by blast
    next
      case d
      define j where "j = p - n"
      with d have j: "0 < j" "j < length t0" "p = n + j" by simp_all
      from lazy_dot_no_label [OF lz j(1,2)] dr [of j] j(3) "2.prems"(1)
      show ?thesis by simp
    next
      case e
      define q where "q = p - (n + length t0)"
      with e have p: "p = n + (length t0 + q)" by simp
      have dq: "drop (n + (length t0 + k)) ?s = drop k rest" for k unfolding dr by simp
      from "2.prems"(1) have a: "label_at (drop q rest) = Some (spk, r)"
        unfolding p dq .
      have b: "\<forall>j>q. label_at (drop j rest) = None"
      proof (intro allI impI)
        fix j assume "q < j"
        then have "n + (length t0 + j) > p" using p by simp
        with "2.prems"(2) have "label_at (drop (n + (length t0 + j)) ?s) = None" by blast
        then show "label_at (drop j rest) = None" unfolding dq .
      qed
      from "2.IH"(2) [OF Some m [symmetric] refl a b "2.prems"(3)]
      obtain ms sp t where "findall rest = ms @ [(sp, t)]" "suffix (strip r) (strip t)"
        by blast
      with fa have "findall ?s = ((sp0, t0) # ms) @ [(sp, t)] \<and> suffix (strip r) (strip t)"
        by simp
      then show ?thesis by blast
    qed
  qed
qed

text \<open>
  Claim C7: what stands before the first label of a script is discarded, since parsing
  the script gives what parsing it from that label on gives; and what follows the
  last label is not dropped: when the text \<open>r\<close> after the last label of the script is
  not blank, the last turn returned ends with this text, stripped.
\<close>

theorem leading_text_discarded_trailing_text_attached:
  "((\<forall>j<p. label_at (drop j script) = None) \<longrightarrow> parse_script script = parse_script (drop p script))
   \<and> (label_at (drop p script) = Some (speaker, r) \<and> (\<forall>j>p. label_at (drop j script) = None)
        \<and> strip r \<noteq> [] \<longrightarrow>
      (\<exists>turns sp text. parse_script script = turns @ [(sp, text)] \<and> suffix (strip r) text))"
proof (intro conjI impI)
  assume "\<forall>j<p. label_at (drop j script) = None"
  from findall_skip [OF this] show "parse_script script = parse_script (drop p script)"
    by (simp add: parse_script_def)
next
  assume a: "label_at (drop p script) = Some (speaker, r) \<and> (\<forall>j>p. label_at (drop j script) = None)
      \<and> strip r \<noteq> []"
  then have "\<exists>ms sp t. findall script = ms @ [(sp, t)] \<and> suffix (strip r) (strip t)"
    using last_match [of p script speaker r] by blast
  then obtain ms sp t where f: "findall script = ms @ [(sp, t)]" and s: "suffix (strip r) (strip t)"
    by blast
  from s a have "strip t \<noteq> []" by (auto simp: suffix_def)
  let ?turns = "map (\<lambda>(speaker, t). (capitalize speaker, strip t))
      (filter (\<lambda>(speaker, t). strip t \<noteq> []) ms)"
  from f \<open>strip t \<noteq> []\<close> have "parse_script script = ?turns @ [(capitalize sp, strip t)]"
    by (simp add: parse_script_def)
  with s show "\<exists>turns sp text. parse_script script = turns @ [(sp, text)] \<and> suffix (strip r) text"
    by blast
qed

theorem leading_text_discarded_trailing_text_attached_witness:
  "parse_script (cps ''xHost:a b'') = parse_script (drop 1 (cps ''xHost:a b''))
   \<and> (\<exists>turns sp text. parse_script (cps ''xHost:a b'') = turns @ [(sp, text)]
        \<and> suffix (strip (cps ''a b'')) text)"
proof -
  let ?s = "cps ''xHost:a b''"
  have 1: "\<forall>j<1. label_at (drop j ?s) = None"
    by (simp add: parse_eval)
  have 2: "label_at (drop 1 ?s) = Some (cps ''Host'', cps ''a b'')"
    by (simp add: parse_eval)
  have 3: "\<forall>j>1. label_at (drop j ?s) = None"
  proof (intro allI impI)
    fix j :: nat assume "1 < j"
    then consider "j = 2" | "j = 3" | "j = 4" | "j = 5" | "j = 6" | "j = 7" | "j = 8" | "j = 9" | "10 \<le> j"
      by linarith
    then show "label_at (drop j ?s) = None"
      by cases (simp_all add: parse_eval)
  qed
  have 4: "strip (cps ''a b'') \<noteq> []" by (simp add: parse_eval)
  from leading_text_discarded_trailing_text_attached [of 1 ?s "cps ''Host''" "cps ''a b''"] 1 2 3 4
  show ?thesis by blast
qed

section \<open>What holds of every turn\<close>

text \<open>
  The text of a returned turn is not empty and neither starts nor ends with white
  space; and on a script with no U+017F the speaker of a returned turn is \<open>Host\<close> or
  \<open>Guest\<close>.
\<close>

lemma parse_text_trimmed:
  assumes "(speaker, t) \<in> set (parse_script script)"
  shows "t \<noteq> [] \<and> \<not> is_space (hd t) \<and> \<not> is_space (last t)"
proof -
  from assms obtain t0 where "t = strip t0" "strip t0 \<noteq> []"
    by (auto simp: parse_script_def)
  with strip_ends [of t0] show ?thesis by simp
qed

lemma findall_label:
  "(sp, t) \<in> set (findall s) \<Longrightarrow> \<exists>pre r. s = pre @ sp @ colon # r \<and> label_at (sp @ colon # r) = Some (sp, r)"
proof (induction s rule: findall.induct)
  case 1
  then show ?case by simp
next
  case (2 c cs)
  show ?case
  proof (cases "match_at (c # cs)")
    case None
    with 2 obtain pre r where "cs = pre @ sp @ colon # r" "label_at (sp @ colon # r) = Some (sp, r)"
      by auto
    then have "c # cs = (c # pre) @ sp @ colon # r \<and> label_at (sp @ colon # r) = Some (sp, r)"
      by simp
    then show ?thesis by blast
  next
    case (Some m)
    obtain sp0 t0 rest where m: "m = (sp0, t0, rest)" by (cases m)
    from Some m have ma: "match_at (c # cs) = Some (sp0, t0, rest)" by simp
    from match_at_shape [OF ma] obtain ws where
      s: "c # cs = sp0 @ colon # ws @ t0 @ rest"
      and l0: "label_at (c # cs) = Some (sp0, ws @ t0 @ rest)"
      by blast
    show ?thesis
    proof (cases "(sp, t) = (sp0, t0)")
      case True
      with s l0 have "c # cs = [] @ sp @ colon # (ws @ t0 @ rest)
          \<and> label_at (sp @ colon # (ws @ t0 @ rest)) = Some (sp, ws @ t0 @ rest)"
        by simp
      then show ?thesis by blast
    next
      case False
      with "2.prems" ma have "(sp, t) \<in> set (findall rest)" by auto
      from "2.IH"(2) [OF Some m [symmetric] refl this] obtain pre r where
        "rest = pre @ sp @ colon # r" "label_at (sp @ colon # r) = Some (sp, r)"
        by blast
      with s have "c # cs = (sp0 @ colon # ws @ t0 @ pre) @ sp @ colon # r
          \<and> label_at (sp @ colon # r) = Some (sp, r)"
        by simp
      then show ?thesis by blast
    qed
  qed
qed

lemma capitalize_ascii_label:
  assumes "list_all2 ci_lit (cps w) sp" and "383 \<notin> set sp"
    and "w = ''host'' \<or> w = ''guest''"
  shows "capitalize sp = cps ''Host'' \<or> capitalize sp = cps ''Guest''"
  using assms
  by (auto simp: cps_simps list_all2_Cons1 ci_lit_def to_upper_def to_lower_def)

lemma parse_speaker_ascii:
  assumes "(speaker, t) \<in> set (parse_script script)" and "383 \<notin> set script"
  shows "speaker = cps ''Host'' \<or> speaker = cps ''Guest''"
proof -
  from assms(1) obtain sp t0 where f: "(sp, t0) \<in> set (findall script)" and c: "speaker = capitalize sp"
    by (auto simp: parse_script_def)
  from findall_label [OF f] obtain pre r where
    s: "script = pre @ sp @ colon # r" and l: "label_at (sp @ colon # r) = Some (sp, r)"
    by blast
  from s assms(2) have n: "383 \<notin> set sp" by auto
  from label_at_word [OF l] capitalize_ascii_label [OF _ n] c show ?thesis by blast
qed

section \<open>Durations\<close>

text \<open>
  The duration that \<open>len\<close> reports is within half a millisecond of the exact one.
\<close>

lemma round_div_bounds:
  assumes "0 < r"
  shows "2 * (r * round_div n r) \<le> 2 * n + r \<and> 2 * n \<le> 2 * (r * round_div n r) + r"
proof -
  define q m where "q = n div r" and "m = n mod r"
  have n: "n = r * q + m" and m: "m < r"
    using assms by (simp_all add: q_def m_def)
  consider "2 * m < r" | "r < 2 * m" | "2 * m = r" by linarith
  then show ?thesis
  proof cases
    case 1
    then have "round_div n r = q" by (simp add: round_div_def Let_def q_def m_def)
    with n 1 show ?thesis by simp
  next
    case 2
    then have "round_div n r = q + 1" by (simp add: round_div_def Let_def q_def m_def)
    with n 2 m show ?thesis by (simp add: algebra_simps)
  next
    case 3
    then have "round_div n r = q \<or> round_div n r = q + 1"
      by (simp add: round_div_def Let_def q_def m_def)
    with n 3 show ?thesis by (auto simp: algebra_simps)
  qed
qed

lemma half_cancel:
  fixes r a b :: nat
  assumes "0 < r" and "2 * (r * a) \<le> 2 * (r * b) + r"
  shows "a \<le> b"
proof (rule ccontr)
  assume "\<not> a \<le> b"
  then have "b + 1 \<le> a" by simp
  then have "r * (b + 1) \<le> r * a" by (rule mult_le_mono2)
  with assms show False by (simp add: algebra_simps)
qed

lemma durations_sum:
  assumes "0 < r"
  shows "\<forall>a\<in>set spoken. frame_rate a = r \<Longrightarrow>
     2 * (r * sum_list (map len_ms spoken))
         \<le> 2000 * length (concat (map frames spoken)) + r * length spoken
     \<and> 2000 * length (concat (map frames spoken))
         \<le> 2 * (r * sum_list (map len_ms spoken)) + r * length spoken"
proof (induction spoken)
  case Nil
  then show ?case by simp
next
  case (Cons a spoken)
  from Cons.prems have ra: "frame_rate a = r" by simp
  from round_div_bounds [OF assms, of "1000 * length (frames a)"] ra
  have "2 * (r * len_ms a) \<le> 2000 * length (frames a) + r"
    "2000 * length (frames a) \<le> 2 * (r * len_ms a) + r"
    by (simp_all add: len_ms_def)
  with Cons show ?case by (simp add: algebra_simps)
qed

lemma length_with_pauses:
  "length (concat (map (\<lambda>a. frames a @ p) spoken))
     = length (concat (map frames spoken)) + length spoken * length p"
  by (induction spoken) simp_all

text \<open>
  Segments of one frame rate with a pause after each, where the pause is reported to
  last 500 ms: the duration of the whole is the sum of the durations plus 500 ms for
  each segment, up to one millisecond for each segment.
\<close>

lemma duration_with_pauses:
  assumes r: "0 < r" and rates: "\<forall>a\<in>set spoken. frame_rate a = r"
    and p: "len_ms \<lparr>frame_rate = r, frames = p\<rparr> = 500"
  shows "len_ms \<lparr>frame_rate = r, frames = concat (map (\<lambda>a. frames a @ p) spoken)\<rparr>
           \<le> sum_list (map len_ms spoken) + 500 * length spoken + length spoken
       \<and> sum_list (map len_ms spoken) + 500 * length spoken
           \<le> len_ms \<lparr>frame_rate = r, frames = concat (map (\<lambda>a. frames a @ p) spoken)\<rparr>
              + length spoken"
proof -
  define N S F T where "N = length spoken" and "S = sum_list (map len_ms spoken)"
    and "F = length (concat (map frames spoken))"
    and "T = len_ms \<lparr>frame_rate = r, frames = concat (map (\<lambda>a. frames a @ p) spoken)\<rparr>"
  from round_div_bounds [OF r, of "1000 * length p"] p
  have p1: "1000 * r \<le> 2000 * length p + r" and p2: "2000 * length p \<le> 1000 * r + r"
    by (simp_all add: len_ms_def)
  from p1 have "N * (1000 * r) \<le> N * (2000 * length p + r)" by (rule mult_le_mono2)
  then have P1: "1000 * (r * N) \<le> 2000 * (N * length p) + r * N" by (simp add: algebra_simps)
  from p2 have "N * (2000 * length p) \<le> N * (1000 * r + r)" by (rule mult_le_mono2)
  then have P2: "2000 * (N * length p) \<le> 1000 * (r * N) + r * N" by (simp add: algebra_simps)
  from durations_sum [OF r rates]
  have S1: "2 * (r * S) \<le> 2000 * F + r * N" and S2: "2000 * F \<le> 2 * (r * S) + r * N"
    by (simp_all add: N_def S_def F_def)
  from round_div_bounds [OF r, of "1000 * (F + N * length p)"]
  have T1: "2 * (r * T) \<le> 2000 * F + 2000 * (N * length p) + r"
    and T2: "2000 * F + 2000 * (N * length p) \<le> 2 * (r * T) + r"
    by (simp_all add: T_def len_ms_def length_with_pauses F_def N_def algebra_simps)
  define X Y Z W where "X = r * T" and "Y = r * S" and "Z = r * N" and "W = N * length p"
  have e1: "2 * (r * (S + 500 * N + N)) + r = 2 * Y + 1002 * Z + r"
    and e2: "2 * (r * (S + 500 * N)) = 2 * Y + 1000 * Z"
    and e3: "2 * (r * (T + N)) + r = 2 * X + 2 * Z + r"
    by (simp_all add: algebra_simps X_def Y_def Z_def)
  note f = T1 T2 S1 S2 P1 P2
  note g = f [folded X_def Y_def Z_def W_def]
  have "2 * X \<le> 2 * Y + 1002 * Z + r" using g by linarith
  then have "2 * (r * T) \<le> 2 * (r * (S + 500 * N + N)) + r"
    by (simp only: e1 X_def)
  from half_cancel [OF r this] have 1: "T \<le> S + 500 * N + N" .
  have "2 * Y + 1000 * Z \<le> 2 * X + 2 * Z + r" using g by linarith
  then have "2 * (r * (S + 500 * N)) \<le> 2 * (r * (T + N)) + r"
    by (simp only: e2 e3)
  from half_cancel [OF r this] have 2: "S + 500 * N \<le> T + N" .
  from 1 2 show ?thesis by (simp add: N_def S_def T_def)
qed

section \<open>The loop over the turns\<close>

lemma read_after_write:
  "tmp w \<noteq> None \<Longrightarrow> read_tmp f (write_tmp f b w) = Some b"
  by (auto simp: read_tmp_def write_tmp_def update_conv')

lemma synth_turn_eq:
  assumes "tmp w \<noteq> None"
  shows "synth_turn E i (speaker, text) segs w =
     (let w1 = w\<lparr>requests := requests w @ [request_of (speaker, text)]\<rparr> in
      case speech E i text (resolve_voice speaker) RATE of
        Saved b \<Rightarrow>
          (case decode E (Some b) of
             Inl e \<Rightarrow> (Inl (RuntimeError (decode_error_message e)), write_tmp i b w1)
           | Inr segment \<Rightarrow> (Inr (segs @ [segment, silent 500]), write_tmp i b w1))
      | Failed e left \<Rightarrow>
          (Inl (ServiceError e), case left of None \<Rightarrow> w1 | Some b \<Rightarrow> write_tmp i b w1))"
proof -
  have "tmp (w\<lparr>requests := requests w @ [request_of (speaker, text)]\<rparr>) \<noteq> None"
    using assms by simp
  from read_after_write [OF this] show ?thesis
    by (simp add: synth_turn_def generate_single_audio_def request_of_def Let_def
        split: tts_result.splits sum.splits option.splits)
qed

text \<open>What one round does to the world.\<close>

lemma synth_turn_world:
  assumes "tmp w \<noteq> None" and "synth_turn E i turn segs w = (res, w')"
  shows "tmp w' \<noteq> None \<and> dest w' = dest w \<and> requests w' = requests w @ [request_of turn]"
proof -
  obtain speaker tx where t: "turn = (speaker, tx)" by (cases turn)
  from assms(2) show ?thesis
    unfolding t synth_turn_eq [OF assms(1)] using assms(1)
    by (auto simp: Let_def write_tmp_def split: tts_result.splits sum.splits option.splits)
qed

lemma synth_turn_result:
  assumes "tmp w \<noteq> None" and "synth_turn E i turn segs w = (res, w')"
  shows "(case turn_audio E i turn of
            Some a \<Rightarrow> res = Inr (segs @ [a, silent 500])
          | None \<Rightarrow> (\<exists>e. res = Inl (RuntimeError (decode_error_message e)) \<or> res = Inl (ServiceError e)))"
proof -
  obtain speaker tx where t: "turn = (speaker, tx)" by (cases turn)
  from assms(2) show ?thesis
    unfolding t synth_turn_eq [OF assms(1)]
    by (auto simp: Let_def turn_audio_def split: tts_result.splits sum.splits option.splits)
qed

lemma synth_loop_world:
  "tmp w \<noteq> None \<Longrightarrow> synth_loop E i turns segs w = (res, w') \<Longrightarrow>
     tmp w' \<noteq> None \<and> dest w' = dest w \<and>
     (\<exists>k\<le>length turns. requests w' = requests w @ map request_of (take k turns)
        \<and> ((\<exists>a. res = Inr a) \<longrightarrow> k = length turns))"
proof (induction turns arbitrary: i segs w)
  case Nil
  then show ?case by auto
next
  case (Cons turn turns)
  obtain r1 w1 where st: "synth_turn E i turn segs w = (r1, w1)" by (cases "synth_turn E i turn segs w")
  from synth_turn_world [OF Cons.prems(1) st]
  have w1: "tmp w1 \<noteq> None" "dest w1 = dest w" "requests w1 = requests w @ [request_of turn]"
    by simp_all
  show ?case
  proof (cases r1)
    case (Inl e)
    with Cons.prems(2) st have "res = Inl e" "w' = w1" by simp_all
    with w1 have "tmp w' \<noteq> None \<and> dest w' = dest w \<and> Suc 0 \<le> length (turn # turns)
        \<and> requests w' = requests w @ map request_of (take (Suc 0) (turn # turns))
        \<and> ((\<exists>a. res = Inr a) \<longrightarrow> Suc 0 = length (turn # turns))"
      by simp
    then show ?thesis by blast
  next
    case (Inr segs1)
    with Cons.prems(2) st have "synth_loop E (Suc i) turns segs1 w1 = (res, w')" by simp
    from Cons.IH [OF w1(1) this] obtain k where
      k: "tmp w' \<noteq> None" "dest w' = dest w1" "k \<le> length turns"
        "requests w' = requests w1 @ map request_of (take k turns)"
        "(\<exists>a. res = Inr a) \<longrightarrow> k = length turns"
      by blast
    with w1 have "tmp w' \<noteq> None \<and> dest w' = dest w \<and> Suc k \<le> length (turn # turns)
        \<and> requests w' = requests w @ map request_of (take (Suc k) (turn # turns))
        \<and> ((\<exists>a. res = Inr a) \<longrightarrow> Suc k = length (turn # turns))"
      by simp
    then show ?thesis by blast
  qed
qed


lemma synth_loop_decode_failure:
  "tmp w \<noteq> None \<Longrightarrow> k < length turns \<Longrightarrow>
   (\<forall>j<k. turn_audio E (i + j) (turns ! j) \<noteq> None) \<Longrightarrow>
   turns ! k = (speaker, tx) \<Longrightarrow> speech E (i + k) tx (resolve_voice speaker) RATE = Saved b \<Longrightarrow>
   decode E (Some b) = Inl e \<Longrightarrow>
   \<exists>w'. synth_loop E i turns segs w = (Inl (RuntimeError (decode_error_message e)), w')
     \<and> requests w' = requests w @ map request_of (take (Suc k) turns)"
proof (induction k arbitrary: i turns segs w)
  case 0
  then obtain rest where t: "turns = (speaker, tx) # rest" by (cases turns) auto
  obtain r1 w1 where st: "synth_turn E i (speaker, tx) segs w = (r1, w1)"
    by (cases "synth_turn E i (speaker, tx) segs w")
  from st 0 have "r1 = Inl (RuntimeError (decode_error_message e))"
    by (simp add: synth_turn_eq [OF 0(1)] Let_def)
  with st synth_turn_world [OF 0(1) st] show ?case
    unfolding t by simp
next
  case (Suc k)
  then obtain turn rest where t: "turns = turn # rest" by (cases turns) auto
  obtain r1 w1 where st: "synth_turn E i turn segs w = (r1, w1)" by (cases "synth_turn E i turn segs w")
  from synth_turn_world [OF Suc.prems(1) st]
  have w1: "tmp w1 \<noteq> None" "requests w1 = requests w @ [request_of turn]" by simp_all
  from Suc.prems(3) have "turn_audio E (i + 0) (turns ! 0) \<noteq> None" by blast
  with t obtain a where "turn_audio E i turn = Some a" by auto
  with synth_turn_result [OF Suc.prems(1) st] have r1: "r1 = Inr (segs @ [a, silent 500])" by simp
  have nx: "\<forall>j<k. turn_audio E (Suc i + j) (rest ! j) \<noteq> None"
  proof (intro allI impI)
    fix j assume "j < k"
    then have "Suc j < Suc k" by simp
    with Suc.prems(3) have "turn_audio E (i + Suc j) (turns ! Suc j) \<noteq> None" by blast
    then show "turn_audio E (Suc i + j) (rest ! j) \<noteq> None" by (simp add: t)
  qed
  have "\<exists>w'. synth_loop E (Suc i) rest (segs @ [a, silent 500]) w1
      = (Inl (RuntimeError (decode_error_message e)), w')
      \<and> requests w' = requests w1 @ map request_of (take (Suc k) rest)"
  proof (rule Suc.IH [OF w1(1) _ nx])
    show "k < length rest" using Suc.prems(2) t by simp
    show "rest ! k = (speaker, tx)" using Suc.prems(4) t by simp
    show "speech E (Suc i + k) tx (resolve_voice speaker) RATE = Saved b"
      using Suc.prems(5) by simp
    show "decode E (Some b) = Inl e" by fact
  qed
  then obtain w' where "synth_loop E (Suc i) rest (segs @ [a, silent 500]) w1
      = (Inl (RuntimeError (decode_error_message e)), w')"
    "requests w' = requests w1 @ map request_of (take (Suc k) rest)"
    by blast
  with st r1 t w1(2) show ?case by simp
qed

lemma synth_loop_no_os_error:
  "tmp w \<noteq> None \<Longrightarrow> synth_loop E i turns segs w = (res, w') \<Longrightarrow> res \<noteq> Inl OSError"
proof (induction turns arbitrary: i segs w)
  case Nil
  then show ?case by auto
next
  case (Cons turn turns)
  obtain r1 w1 where st: "synth_turn E i turn segs w = (r1, w1)" by (cases "synth_turn E i turn segs w")
  from synth_turn_world [OF Cons.prems(1) st] have w1: "tmp w1 \<noteq> None" by simp
  show ?case
  proof (cases r1)
    case (Inl e)
    with synth_turn_result [OF Cons.prems(1) st] have "e \<noteq> OSError"
      by (cases "turn_audio E i turn") auto
    with Inl Cons.prems(2) st show ?thesis by auto
  next
    case (Inr segs1)
    with Cons.prems(2) st have "synth_loop E (Suc i) turns segs1 w1 = (res, w')" by simp
    from Cons.IH [OF w1 this] show ?thesis .
  qed
qed

lemma synth_loop_removals:
  "synth_loop (E\<lparr>remove_fails := rf, rmdir_fails := rd\<rparr>) i turns segs w = synth_loop E i turns segs w"
proof (induction turns arbitrary: i segs w)
  case Nil
  then show ?case by simp
next
  case (Cons turn turns)
  have "synth_turn (E\<lparr>remove_fails := rf, rmdir_fails := rd\<rparr>) i turn segs w = synth_turn E i turn segs w"
    by (simp add: synth_turn_def generate_single_audio_def Let_def
        split: prod.splits sum.splits tts_result.splits option.splits)
  with Cons show ?case by (simp split: prod.splits sum.splits)
qed

text \<open>When every turn gives its segment, the loop runs to its end.\<close>

lemma synth_loop_success:
  "tmp w \<noteq> None \<Longrightarrow> length spoken = length turns \<Longrightarrow>
   (\<forall>k<length turns. turn_audio E (i + k) (turns ! k) = Some (spoken ! k)) \<Longrightarrow>
   \<exists>w'. synth_loop E i turns segs w
          = (Inr (segs @ concat (map (\<lambda>a. [a, silent 500]) spoken)), w')
     \<and> tmp w' \<noteq> None \<and> dest w' = dest w \<and> requests w' = requests w @ map request_of turns"
proof (induction turns arbitrary: i segs w spoken)
  case Nil
  then show ?case by simp
next
  case (Cons turn turns)
  from Cons.prems(2) obtain a rest where sp: "spoken = a # rest" "length rest = length turns"
    by (cases spoken) auto
  from Cons.prems(3) have "turn_audio E (i + 0) ((turn # turns) ! 0) = Some (spoken ! 0)" by blast
  then have ta: "turn_audio E i turn = Some a" by (simp add: sp)
  obtain r1 w1 where st: "synth_turn E i turn segs w = (r1, w1)" by (cases "synth_turn E i turn segs w")
  from synth_turn_world [OF Cons.prems(1) st]
  have w1: "tmp w1 \<noteq> None" "dest w1 = dest w" "requests w1 = requests w @ [request_of turn]"
    by simp_all
  from synth_turn_result [OF Cons.prems(1) st] ta have r1: "r1 = Inr (segs @ [a, silent 500])"
    by simp
  have nx: "\<forall>k<length turns. turn_audio E (Suc i + k) (turns ! k) = Some (rest ! k)"
  proof (intro allI impI)
    fix k assume "k < length turns"
    then have "Suc k < length (turn # turns)" by simp
    with Cons.prems(3) have "turn_audio E (i + Suc k) ((turn # turns) ! Suc k) = Some (spoken ! Suc k)"
      by blast
    then show "turn_audio E (Suc i + k) (turns ! k) = Some (rest ! k)" by (simp add: sp)
  qed
  from Cons.IH [OF w1(1) sp(2) nx, of "segs @ [a, silent 500]"] obtain w' where
    "synth_loop E (Suc i) turns (segs @ [a, silent 500]) w1
       = (Inr ((segs @ [a, silent 500]) @ concat (map (\<lambda>a. [a, silent 500]) rest)), w')"
    "tmp w' \<noteq> None" "dest w' = dest w1" "requests w' = requests w1 @ map request_of turns"
    by blast
  with st r1 w1 sp show ?case by simp
qed

section \<open>The \<open>finally\<close> block\<close>

lemma remove_step:
  "dest (swallow (os_remove E f v) v) = dest v \<and>
   requests (swallow (os_remove E f v) v) = requests v \<and>
   (tmp v \<noteq> None \<longrightarrow> tmp (swallow (os_remove E f v) v) \<noteq> None)"
  by (auto simp: swallow_def os_remove_def split: option.splits)

lemma remove_all_world:
  "dest (fold (\<lambda>f v. swallow (os_remove E f v) v) fs w) = dest w \<and>
   requests (fold (\<lambda>f v. swallow (os_remove E f v) v) fs w) = requests w \<and>
   (tmp w \<noteq> None \<longrightarrow> tmp (fold (\<lambda>f v. swallow (os_remove E f v) v) fs w) \<noteq> None)"
proof (induction fs arbitrary: w)
  case Nil
  then show ?case by simp
next
  case (Cons f fs)
  from remove_step [of E f w] Cons [of "swallow (os_remove E f w) w"] show ?case by simp
qed

text \<open>
  When \<open>os.listdir\<close> raises, nothing is removed and its error leaves the block; when it
  does not, nothing leaves the block.
\<close>

lemma cleanup_listdir_fails:
  "listdir_fails E \<Longrightarrow> cleanup E w = (Some OSError, w)"
  by (simp add: cleanup_def os_listdir_def split: option.splits)

lemma cleanup_world:
  assumes "tmp w \<noteq> None" and "\<not> listdir_fails E"
  shows "fst (cleanup E w) = None \<and> dest (snd (cleanup E w)) = dest w
         \<and> requests (snd (cleanup E w)) = requests w"
proof -
  from assms obtain fs where fs: "tmp w = Some fs" by auto
  let ?w1 = "fold (\<lambda>f v. swallow (os_remove E f v) v) (map fst fs) w"
  have c: "cleanup E w = (None, swallow (os_rmdir E ?w1) ?w1)"
    using assms(2) by (simp add: cleanup_def os_listdir_def fs Let_def)
  have "dest (swallow (os_rmdir E ?w1) ?w1) = dest ?w1 \<and>
        requests (swallow (os_rmdir E ?w1) ?w1) = requests ?w1"
    by (auto simp: swallow_def os_rmdir_def split: option.splits)
  with remove_all_world [of E "map fst fs" w] c show ?thesis by simp
qed

lemma remove_all_empties:
  assumes ok: "\<forall>f. \<not> remove_fails E f"
  shows "tmp v = Some gs \<Longrightarrow> fst ` set gs \<subseteq> set ks \<Longrightarrow>
     tmp (fold (\<lambda>f v. swallow (os_remove E f v) v) ks v) = Some []"
proof (induction ks arbitrary: v gs)
  case Nil
  then show ?case by simp
next
  case (Cons k ks)
  let ?v1 = "swallow (os_remove E k v) v"
  have "tmp ?v1 = Some (AList.delete k gs)"
    using Cons.prems(1) ok by (simp add: swallow_def os_remove_def)
  moreover have "fst ` set (AList.delete k gs) \<subseteq> set ks"
  proof
    fix a assume a: "a \<in> fst ` set (AList.delete k gs)"
    with delete_notin_dom [of k gs] have "a \<noteq> k" by blast
    moreover from a dom_delete_subset [of k gs] have "a \<in> fst ` set gs" by blast
    ultimately show "a \<in> set ks" using Cons.prems(2) by auto
  qed
  ultimately have "tmp (fold (\<lambda>f v. swallow (os_remove E f v) v) ks ?v1) = Some []"
    by (rule Cons.IH)
  then show ?case by simp
qed

lemma cleanup_removes:
  assumes "tmp w \<noteq> None" "\<not> listdir_fails E" "\<forall>f. \<not> remove_fails E f" "\<not> rmdir_fails E"
  shows "tmp (snd (cleanup E w)) = None"
proof -
  from assms obtain fs where fs: "tmp w = Some fs" by auto
  let ?w1 = "fold (\<lambda>f v. swallow (os_remove E f v) v) (map fst fs) w"
  have c: "cleanup E w = (None, swallow (os_rmdir E ?w1) ?w1)"
    using assms(2) by (simp add: cleanup_def os_listdir_def fs Let_def)
  from remove_all_empties [OF assms(3) fs, of "map fst fs"] have "tmp ?w1 = Some []" by simp
  with assms(4) have "tmp (swallow (os_rmdir E ?w1) ?w1) = None"
    by (simp add: swallow_def os_rmdir_def)
  with c show ?thesis by simp
qed

text \<open>The run after the guard, in one equation.\<close>

lemma run_eq:
  assumes "parse_script script \<noteq> []"
  shows "generate_podcast_audio E script out w =
     (let (r, w2) = (case synth_loop E 0 (parse_script script) [] (mkdtemp w) of
                       (Inl e, w') \<Rightarrow> (Inl e, w')
                     | (Inr segs, w') \<Rightarrow> combine_export E segs out w');
          (c, w3) = cleanup E w2
      in (case c of Some e \<Rightarrow> (Inl e, w3) | None \<Rightarrow> (r, w3)))"
  using assms by (simp add: generate_podcast_audio_def Let_def)

lemma combine_export_world:
  "combine_export E segs out w = (r, w') \<Longrightarrow> tmp w' = tmp w \<and> requests w' = requests w
     \<and> r \<noteq> Inl OSError"
  by (auto simp: combine_export_def Let_def split: if_splits option.splits)

section \<open>The sum of the segments\<close>

lemma frame_rate_silent [simp]: "frame_rate (silent d) = 11025"
  by (simp add: silent_def)

lemma set_frame_rate_same [simp]: "frame_rate a = rate \<Longrightarrow> set_frame_rate E rate a = a"
  by (simp add: set_frame_rate_def)

lemma frame_rate_set [simp]: "frame_rate (set_frame_rate E rate a) = rate"
  by (simp add: set_frame_rate_def)

lemma append_segment_pause:
  assumes "frame_rate a = rate" and "11025 \<le> rate"
  shows "append_segment E a (silent 500) = \<lparr>frame_rate = rate, frames = frames a @ pause E rate\<rparr>"
  using assms by (simp add: append_segment_def pause_def max_def)

lemma append_segment_same:
  assumes "frame_rate a = rate" and "frame_rate b = rate"
  shows "append_segment E a b = \<lparr>frame_rate = rate, frames = frames a @ frames b\<rparr>"
  using assms by (simp add: append_segment_def)

text \<open>
  Segments of one frame rate, not below the rate of the pause, each followed by the
  pause, add up to their frames in order, with the frames of the pause after each.
\<close>

lemma foldl_with_pauses:
  assumes "11025 \<le> rate"
  shows "\<forall>a\<in>set spoken. frame_rate a = rate \<Longrightarrow> frame_rate acc = rate \<Longrightarrow>
     foldl (append_segment E) acc (concat (map (\<lambda>a. [a, silent 500]) spoken))
       = \<lparr>frame_rate = rate,
          frames = frames acc @ concat (map (\<lambda>a. frames a @ pause E rate) spoken)\<rparr>"
proof (induction spoken arbitrary: acc)
  case Nil
  then show ?case by simp
next
  case (Cons a spoken)
  from Cons.prems have ra: "frame_rate a = rate" by simp
  let ?acc = "\<lparr>frame_rate = rate, frames = (frames acc @ frames a) @ pause E rate\<rparr>"
  have "append_segment E (append_segment E acc a) (silent 500) = ?acc"
    using append_segment_pause [OF _ assms, of "append_segment E acc a" E]
    by (simp add: append_segment_same [OF Cons.prems(2) ra])
  moreover have "foldl (append_segment E) ?acc (concat (map (\<lambda>a. [a, silent 500]) spoken))
      = \<lparr>frame_rate = rate,
         frames = frames ?acc @ concat (map (\<lambda>a. frames a @ pause E rate) spoken)\<rparr>"
    using Cons.prems(1) by (intro Cons.IH) simp_all
  ultimately show ?case by simp
qed

lemma combined_with_pauses:
  assumes "11025 \<le> rate" and "\<forall>a\<in>set spoken. frame_rate a = rate" and "spoken \<noteq> []"
  shows "foldl (append_segment E) (hd (concat (map (\<lambda>a. [a, silent 500]) spoken)))
           (tl (concat (map (\<lambda>a. [a, silent 500]) spoken)))
       = \<lparr>frame_rate = rate, frames = concat (map (\<lambda>a. frames a @ pause E rate) spoken)\<rparr>"
proof -
  from assms(3) obtain a rest where sp: "spoken = a # rest" by (cases spoken) auto
  with assms(2) have ra: "frame_rate a = rate" and rr: "\<forall>a\<in>set rest. frame_rate a = rate"
    by simp_all
  let ?acc = "\<lparr>frame_rate = rate, frames = frames a @ pause E rate\<rparr>"
  have "foldl (append_segment E) ?acc (concat (map (\<lambda>a. [a, silent 500]) rest))
      = \<lparr>frame_rate = rate,
         frames = frames ?acc @ concat (map (\<lambda>a. frames a @ pause E rate) rest)\<rparr>"
    using rr by (intro foldl_with_pauses [OF assms(1)]) simp_all
  then show ?thesis
    by (simp add: sp append_segment_pause [OF ra assms(1)])
qed

section \<open>Runs\<close>

text \<open>A run that passes the guard, split into its three stages.\<close>

lemma run_stages:
  assumes run: "generate_podcast_audio E script out w = (res, w')"
    and ne: "parse_script script \<noteq> []"
  shows "\<exists>r0 w0 r2 w2.
      synth_loop E 0 (parse_script script) [] (mkdtemp w) = (r0, w0)
      \<and> (case r0 of Inl e \<Rightarrow> r2 = Inl e \<and> w2 = w0
                  | Inr segs \<Rightarrow> combine_export E segs out w0 = (r2, w2))
      \<and> tmp w0 \<noteq> None \<and> tmp w2 \<noteq> None
      \<and> (if listdir_fails E then res = Inl OSError \<and> w' = w2
          else res = r2 \<and> w' = snd (cleanup E w2))
      \<and> dest w' = dest w2 \<and> requests w' = requests w2"
proof -
  obtain r0 w0 where l: "synth_loop E 0 (parse_script script) [] (mkdtemp w) = (r0, w0)"
    by (cases "synth_loop E 0 (parse_script script) [] (mkdtemp w)")
  have "tmp (mkdtemp w) \<noteq> None" by (simp add: mkdtemp_def)
  from synth_loop_world [OF this l] have w0: "tmp w0 \<noteq> None" by simp
  obtain r2 w2 where b: "(case r0 of Inl e \<Rightarrow> (Inl e, w0)
      | Inr segs \<Rightarrow> combine_export E segs out w0) = (r2, w2)"
    by (cases "case r0 of Inl e \<Rightarrow> (Inl e, w0) | Inr segs \<Rightarrow> combine_export E segs out w0")
  have w2: "tmp w2 \<noteq> None"
    using b w0 by (cases r0) (auto dest: combine_export_world)
  have b': "case r0 of Inl e \<Rightarrow> r2 = Inl e \<and> w2 = w0
                  | Inr segs \<Rightarrow> combine_export E segs out w0 = (r2, w2)"
    using b by (cases r0) auto
  show ?thesis
  proof (cases "listdir_fails E")
    case True
    from run have "res = Inl OSError" "w' = w2"
      unfolding run_eq [OF ne] using l b cleanup_listdir_fails [OF True, of w2]
      by (simp_all split: sum.splits)
    with l b' w0 w2 True show ?thesis by auto
  next
    case False
    from cleanup_world [OF w2 False] obtain w3 where
      c: "cleanup E w2 = (None, w3)" "dest w3 = dest w2" "requests w3 = requests w2"
      by (cases "cleanup E w2") auto
    from run have "res = r2" "w' = w3"
      unfolding run_eq [OF ne] using l b c(1) by (simp_all split: sum.splits)
    with l b' c w0 w2 False show ?thesis by auto
  qed
qed

lemma parse_two_turns:
  "parse_script two_turns = [(cps ''Host'', cps ''Hi''), (cps ''Guest'', cps ''Hello'')]"
  by (simp add: two_turns_def parse_eval)

lemma parse_three_turns:
  "parse_script three_turns
     = [(cps ''Host'', cps ''Hi''), (cps ''Guest'', cps ''Hello''), (cps ''Host'', cps ''Bye'')]"
  by (simp add: three_turns_def parse_eval)

lemma parse_long_s_turns:
  "parse_script long_s_turns
     = [(cps ''Host'', cps ''Hi''), (cps ''Ho'' @ [383] @ cps ''t'', cps ''Bye'')]"
  by (simp add: long_s_turns_def parse_eval)

lemmas sum_eval = append_segment_def max_def pause_def [symmetric]

lemma demo_pause: "length (pause demo_env 24000) = 11998"
  by (simp add: pause_def set_frame_rate_def silent_def demo_env_def)

lemma demo_pause_len: "len_ms (set_frame_rate demo_env 24000 (silent 500)) = 500"
  using demo_pause by (simp add: len_ms_def pause_def round_div_def Let_def)

text \<open>
  A run of two turns where nothing fails: the output path is returned, the file there
  holds the two segments, each with its pause, two requests were made, and no
  temporary directory is left.
\<close>

lemma run_two_turns:
  "generate_podcast_audio demo_env two_turns (cps ''podcast.mp3'') empty_world =
     (Inr (cps ''podcast.mp3''),
      \<lparr>tmp = None,
       dest = Some \<lparr>frame_rate = 24000,
                    frames = map int (cps ''Hi'') @ pause demo_env 24000
                             @ map int (cps ''Hello'') @ pause demo_env 24000\<rparr>,
       requests = [(cps ''Hi'', HOST_VOICE, RATE), (cps ''Hello'', GUEST_VOICE, RATE)]\<rparr>)"
  by (simp add: run_eval parse_two_turns cps_simps sum_eval)

text \<open>
  The same run with no decoder: it ends with the \<open>RuntimeError\<close> at the first turn,
  after one request; nothing is written and no temporary directory is left.
\<close>

lemma run_no_decoder:
  "generate_podcast_audio no_decoder_env two_turns (cps ''podcast.mp3'') empty_world =
     (Inl (RuntimeError (decode_error_message (cps ''ffmpeg''))),
      \<lparr>tmp = None, dest = None, requests = [(cps ''Hi'', HOST_VOICE, RATE)]\<rparr>)"
  by (simp add: run_eval parse_two_turns cps_simps)

section \<open>The assembled audio\<close>

text \<open>
  Claim C3: let every turn of a script give its segment, all the segments at one frame
  rate that is at least the rate of the pause, let the pause brought to that rate
  still last 500 ms, and let the export and \<open>os.listdir\<close> not fail. Then the run
  returns the output path, and the file there holds, in the order of the turns, the
  frames of the segment of each turn followed by the frames of the pause, the last
  turn included. Its duration is the sum of the durations of the \<open>N\<close> segments plus
  500 ms for each of them, up to \<open>N\<close> ms: every duration is rounded to a whole
  millisecond.
\<close>

theorem assembled_audio:
  assumes turns: "parse_script script \<noteq> []"
    and len: "length spoken = length (parse_script script)"
    and spoken: "\<forall>k<length (parse_script script).
                   turn_audio E k (parse_script script ! k) = Some (spoken ! k)"
    and rates: "\<forall>a\<in>set spoken. frame_rate a = rate"
    and rate: "11025 \<le> rate"
    and half: "len_ms (set_frame_rate E rate (silent 500)) = 500"
    and export: "export_error E
                   \<lparr>frame_rate = rate,
                    frames = concat (map (\<lambda>a. frames a @ pause E rate) spoken)\<rparr> = None"
    and listdir: "\<not> listdir_fails E"
  shows "\<exists>w' combined.
        generate_podcast_audio E script out w = (Inr out, w')
      \<and> dest w' = Some combined
      \<and> combined = \<lparr>frame_rate = rate,
                      frames = concat (map (\<lambda>a. frames a @ pause E rate) spoken)\<rparr>
      \<and> len_ms combined \<le> sum_list (map len_ms spoken) + 500 * length spoken + length spoken
      \<and> sum_list (map len_ms spoken) + 500 * length spoken \<le> len_ms combined + length spoken"
proof -
  let ?combined = "\<lparr>frame_rate = rate,
                    frames = concat (map (\<lambda>a. frames a @ pause E rate) spoken)\<rparr>"
  let ?segs = "concat (map (\<lambda>a. [a, silent 500]) spoken)"
  have t: "tmp (mkdtemp w) \<noteq> None" by (simp add: mkdtemp_def)
  have sp: "\<forall>k<length (parse_script script).
              turn_audio E (0 + k) (parse_script script ! k) = Some (spoken ! k)"
    using spoken by simp
  from synth_loop_success [OF t len sp, of "[]"] obtain w0 where
    l: "synth_loop E 0 (parse_script script) [] (mkdtemp w) = (Inr ?segs, w0)"
    and w0: "tmp w0 \<noteq> None"
    by auto
  from len turns have ne: "spoken \<noteq> []" by auto
  then have segs: "?segs \<noteq> []" by (cases spoken) auto
  have ce: "combine_export E ?segs out w0 = (Inr out, w0\<lparr>dest := Some ?combined\<rparr>)"
    using segs export
    by (simp add: combine_export_def combined_with_pauses [OF rate rates ne])
  let ?w2 = "w0\<lparr>dest := Some ?combined\<rparr>"
  have w2: "tmp ?w2 \<noteq> None" using w0 by simp
  from cleanup_world [OF w2 listdir] obtain w3 where
    c: "cleanup E ?w2 = (None, w3)" "dest w3 = Some ?combined"
    by (cases "cleanup E ?w2") auto
  have run: "generate_podcast_audio E script out w = (Inr out, w3)"
    unfolding run_eq [OF turns] using l ce c(1) by simp
  have r: "0 < rate" using rate by simp
  have p: "len_ms \<lparr>frame_rate = rate, frames = pause E rate\<rparr> = 500"
    using half by (simp add: len_ms_def pause_def)
  from duration_with_pauses [OF r rates p] run c(2) show ?thesis by simp
qed

theorem assembled_audio_witness:
  "\<exists>w' combined.
        generate_podcast_audio demo_env two_turns (cps ''podcast.mp3'') empty_world
          = (Inr (cps ''podcast.mp3''), w')
      \<and> dest w' = Some combined
      \<and> combined = \<lparr>frame_rate = 24000,
                      frames = map int (cps ''Hi'') @ pause demo_env 24000
                               @ map int (cps ''Hello'') @ pause demo_env 24000\<rparr>
      \<and> len_ms combined \<le> 1002 \<and> 1000 \<le> len_ms combined + 2"
proof -
  let ?spoken = "[\<lparr>frame_rate = 24000, frames = map int (cps ''Hi'')\<rparr>,
                  \<lparr>frame_rate = 24000, frames = map int (cps ''Hello'')\<rparr>]"
  have 1: "parse_script two_turns \<noteq> []" by (simp add: parse_two_turns)
  have 2: "length ?spoken = length (parse_script two_turns)" by (simp add: parse_two_turns)
  have 3: "\<forall>k<length (parse_script two_turns).
             turn_audio demo_env k (parse_script two_turns ! k) = Some (?spoken ! k)"
    by (simp add: parse_two_turns turn_audio_def demo_env_def less_Suc_eq)
  have 4: "\<forall>a\<in>set ?spoken. frame_rate a = 24000" by simp
  have 5: "(11025::nat) \<le> 24000" by simp
  have 6: "export_error demo_env
             \<lparr>frame_rate = 24000,
              frames = concat (map (\<lambda>a. frames a @ pause demo_env 24000) ?spoken)\<rparr> = None"
    by (simp add: demo_env_def)
  have 7: "\<not> listdir_fails demo_env" by (simp add: demo_env_def)
  have 8: "sum_list (map len_ms ?spoken) = 0"
    by (simp add: len_ms_def round_div_def Let_def cps_simps)
  from assembled_audio [OF 1 2 3 4 5 demo_pause_len 6 7, of "cps ''podcast.mp3''" empty_world] 8
  show ?thesis by simp
qed

section \<open>An empty sequence of segments\<close>



section \<open>Voice and rate of every request\<close>

text \<open>
  The requests that a run makes to the speech service are those of its turns, in
  order: all the turns when the run returns the output path, the first \<open>k\<close> of them
  otherwise. The request of a turn asks for the text of the turn at the rate \<open>+20%\<close>,
  in the voice \<open>ko-KR-InJoonNeural\<close> when the speaker is \<open>Host\<close> and in the voice
  \<open>ko-KR-SunHiNeural\<close> when it is anything else.
\<close>

lemma run_requests:
  assumes run: "generate_podcast_audio E script out w = (res, w')"
  shows "\<exists>k\<le>length (parse_script script).
            requests w' = requests w @ map request_of (take k (parse_script script))
            \<and> ((\<exists>p. res = Inr p) \<longrightarrow> k = length (parse_script script))"
proof (cases "parse_script script = []")
  case True
  with run show ?thesis by (auto simp: generate_podcast_audio_def)
next
  case False
  from run_stages [OF run False] obtain r0 w0 r2 w2 where
    l: "synth_loop E 0 (parse_script script) [] (mkdtemp w) = (r0, w0)"
    and b: "case r0 of Inl e \<Rightarrow> r2 = Inl e \<and> w2 = w0
                  | Inr segs \<Rightarrow> combine_export E segs out w0 = (r2, w2)"
    and f: "if listdir_fails E then res = Inl OSError \<and> w' = w2
            else res = r2 \<and> w' = snd (cleanup E w2)"
    and rq: "requests w' = requests w2"
    by blast
  have "tmp (mkdtemp w) \<noteq> None" by (simp add: mkdtemp_def)
  from synth_loop_world [OF this l] obtain k where
    k: "k \<le> length (parse_script script)"
      "requests w0 = requests (mkdtemp w) @ map request_of (take k (parse_script script))"
      "(\<exists>a. r0 = Inr a) \<longrightarrow> k = length (parse_script script)"
    by blast
  have "requests w2 = requests w0"
    using b by (cases r0) (auto dest: combine_export_world)
  moreover have "(\<exists>p. res = Inr p) \<longrightarrow> (\<exists>a. r0 = Inr a)"
    using b f by (cases r0) (auto split: if_splits)
  ultimately show ?thesis using k rq by (auto simp: mkdtemp_def)
qed

lemma request_of_turn:
  "request_of (speaker, t)
     = (t, if speaker = cps ''Host'' then cps ''ko-KR-InJoonNeural'' else cps ''ko-KR-SunHiNeural'',
        cps ''+20%'')"
  by (simp add: request_of_def resolve_voice_def HOST_VOICE_def GUEST_VOICE_def RATE_def)

text \<open>
  Claim C8 says that every turn is spoken in the voice of its speaker. The pattern of
  \<open>parse_script\<close> takes \<open>Ho\<close>, U+017F, \<open>t:\<close> for a label of the host, but the speaker that
  comes out of it is not the string \<open>Host\<close>, and the voice is chosen by comparing with
  that string: in the script whose first turn is \<open>Host: Hi\<close> and whose second turn is
  \<open>Ho\<close>, U+017F, \<open>t: Bye\<close>, both turns are the host's, and the request for the second
  asks for the voice of the guest, \<open>ko-KR-SunHiNeural\<close>. The rate is \<open>+20%\<close> in both.
\<close>

theorem host_turn_in_guest_voice:
  "parse_script long_s_turns
     = [(cps ''Host'', cps ''Hi''), (cps ''Ho'' @ [383] @ cps ''t'', cps ''Bye'')]
   \<and> label_at (cps ''Ho'' @ [383] @ cps ''t: Bye'') = Some (cps ''Ho'' @ [383] @ cps ''t'', cps '' Bye'')
   \<and> fst (generate_podcast_audio demo_env long_s_turns (cps ''podcast.mp3'') empty_world)
       = Inr (cps ''podcast.mp3'')
   \<and> requests (snd (generate_podcast_audio demo_env long_s_turns (cps ''podcast.mp3'') empty_world))
       = [(cps ''Hi'', cps ''ko-KR-InJoonNeural'', cps ''+20%''),
          (cps ''Bye'', cps ''ko-KR-SunHiNeural'', cps ''+20%'')]"
proof -
  have "label_at (cps ''Ho'' @ [383] @ cps ''t: Bye'')
      = Some (cps ''Ho'' @ [383] @ cps ''t'', cps '' Bye'')"
    by (simp add: parse_eval)
  moreover have "generate_podcast_audio demo_env long_s_turns (cps ''podcast.mp3'') empty_world
      = (Inr (cps ''podcast.mp3''),
         \<lparr>tmp = None,
          dest = Some \<lparr>frame_rate = 24000,
                       frames = map int (cps ''Hi'') @ pause demo_env 24000
                                @ map int (cps ''Bye'') @ pause demo_env 24000\<rparr>,
          requests = [(cps ''Hi'', cps ''ko-KR-InJoonNeural'', cps ''+20%''),
                      (cps ''Bye'', cps ''ko-KR-SunHiNeural'', cps ''+20%'')]\<rparr>)"
    by (simp add: run_eval parse_long_s_turns cps_simps sum_eval)
  ultimately show ?thesis by (simp add: parse_long_s_turns)
qed

section \<open>A speaker that is neither of the two\<close>

text \<open>
  Claim C9 says that choosing a voice fails for a speaker other than \<open>Host\<close> and
  \<open>Guest\<close>. The parser does hand over such a speaker: on the script \<open>Ho\<close>, U+017F,
  \<open>t: hi\<close> (\<open>long_s_turn\<close>) the speaker of the one turn is neither of the two. Nothing fails then: the
  run makes its one request in the voice of the guest, writes the file and returns the
  output path.
\<close>

theorem unknown_speaker_is_voiced:
  "fst (hd (parse_script long_s_turn)) \<noteq> cps ''Host''
   \<and> fst (hd (parse_script long_s_turn)) \<noteq> cps ''Guest''
   \<and> generate_podcast_audio demo_env long_s_turn (cps ''podcast.mp3'') empty_world
       = (Inr (cps ''podcast.mp3''),
          \<lparr>tmp = None,
           dest = Some \<lparr>frame_rate = 24000,
                        frames = map int (cps ''hi'') @ pause demo_env 24000\<rparr>,
           requests = [(cps ''hi'', cps ''ko-KR-SunHiNeural'', cps ''+20%'')]\<rparr>)"
proof -
  have p: "parse_script long_s_turn = [(cps ''Ho'' @ [383] @ cps ''t'', cps ''hi'')]"
    by (simp add: long_s_turn_def parse_eval)
  show ?thesis by (simp add: run_eval p cps_simps sum_eval)
qed

section \<open>A segment that cannot be loaded\<close>

lemma sublist_skip: "sublist xs ys \<Longrightarrow> sublist xs (zs @ ys)"
  by (metis sublist_order.order.trans sublist_append_leftI)

lemma sublist_first: "sublist xs ((xs @ ys) @ zs)"
  by (metis append_Nil append_assoc sublist_appendI)

lemma command_in_install_line: "sublist command (install_line system command)"
  unfolding install_line_def by (intro sublist_skip) simp

lemma remediation_in_message:
  "sublist (cps ''brew install ffmpeg'') (decode_error_message e)
   \<and> sublist (cps ''sudo apt-get install ffmpeg'') (decode_error_message e)"
proof -
  have "sublist (install_line (cps ''Mac'') (cps ''brew install ffmpeg'')) (decode_error_message e)"
    unfolding decode_error_message_def by (rule sublist_skip) (rule sublist_first)
  moreover have "sublist (install_line (cps ''Ubuntu'') (cps ''sudo apt-get install ffmpeg''))
      (decode_error_message e)"
    unfolding decode_error_message_def
    by (rule sublist_skip, rule sublist_skip) (rule sublist_first)
  ultimately show ?thesis
    using command_in_install_line sublist_order.order.trans by blast
qed

text \<open>
  Claim C5: when the turns before the turn \<open>k\<close> give their segments and the file of
  the turn \<open>k\<close> is saved but cannot be loaded, the run ends with the \<open>RuntimeError\<close>
  whose message tells how to install ffmpeg; the requests made are those of the turns
  up to \<open>k\<close> and no other, and the file at the output path is left as it was. The
  \<open>finally\<close> block is taken to list the temporary directory without an error.
\<close>

theorem decode_failure_aborts_run:
  assumes k: "k < length (parse_script script)"
    and before: "\<forall>j<k. turn_audio E j (parse_script script ! j) \<noteq> None"
    and turn: "parse_script script ! k = (speaker, tx)"
    and saved: "speech E k tx (resolve_voice speaker) RATE = Saved b"
    and bad: "decode E (Some b) = Inl e"
    and listdir: "\<not> listdir_fails E"
  shows "\<exists>w'. generate_podcast_audio E script out w
          = (Inl (RuntimeError (decode_error_message e)), w')
      \<and> dest w' = dest w
      \<and> requests w' = requests w @ map request_of (take (Suc k) (parse_script script))
      \<and> sublist (cps ''brew install ffmpeg'') (decode_error_message e)
      \<and> sublist (cps ''sudo apt-get install ffmpeg'') (decode_error_message e)"
proof -
  from k have ne: "parse_script script \<noteq> []" by auto
  have t: "tmp (mkdtemp w) \<noteq> None" by (simp add: mkdtemp_def)
  have "\<exists>w0. synth_loop E 0 (parse_script script) [] (mkdtemp w)
        = (Inl (RuntimeError (decode_error_message e)), w0)
      \<and> requests w0 = requests (mkdtemp w) @ map request_of (take (Suc k) (parse_script script))"
  proof (rule synth_loop_decode_failure [OF t k])
    show "\<forall>j<k. turn_audio E (0 + j) (parse_script script ! j) \<noteq> None" using before by simp
    show "parse_script script ! k = (speaker, tx)" by fact
    show "speech E (0 + k) tx (resolve_voice speaker) RATE = Saved b" using saved by simp
    show "decode E (Some b) = Inl e" by fact
  qed
  then obtain w0 where
    l: "synth_loop E 0 (parse_script script) [] (mkdtemp w)
        = (Inl (RuntimeError (decode_error_message e)), w0)"
    and rq: "requests w0 = requests w @ map request_of (take (Suc k) (parse_script script))"
    by (auto simp: mkdtemp_def)
  from synth_loop_world [OF t l] have w0: "tmp w0 \<noteq> None" "dest w0 = dest w"
    by (simp_all add: mkdtemp_def)
  from cleanup_world [OF w0(1) listdir] obtain w3 where
    c: "cleanup E w0 = (None, w3)" "dest w3 = dest w0" "requests w3 = requests w0"
    by (cases "cleanup E w0") auto
  have "generate_podcast_audio E script out w = (Inl (RuntimeError (decode_error_message e)), w3)"
    unfolding run_eq [OF ne] using l c(1) by simp
  with c w0 rq remediation_in_message [of e] show ?thesis by simp
qed

theorem decode_failure_aborts_run_witness:
  "\<exists>w'. generate_podcast_audio bad_file_env three_turns (cps ''podcast.mp3'') empty_world
          = (Inl (RuntimeError (decode_error_message (cps ''ffmpeg''))), w')
      \<and> dest w' = dest empty_world
      \<and> requests w' = requests empty_world @ map request_of (take (Suc 1) (parse_script three_turns))
      \<and> sublist (cps ''brew install ffmpeg'') (decode_error_message (cps ''ffmpeg''))
      \<and> sublist (cps ''sudo apt-get install ffmpeg'') (decode_error_message (cps ''ffmpeg''))"
proof (rule decode_failure_aborts_run)
  show "1 < length (parse_script three_turns)" by (simp add: parse_three_turns)
  show "\<forall>j<1. turn_audio bad_file_env j (parse_script three_turns ! j) \<noteq> None"
    by (simp add: parse_three_turns turn_audio_def bad_file_env_def demo_env_def cps_simps)
  show "parse_script three_turns ! 1 = (cps ''Guest'', cps ''Hello'')"
    by (simp add: parse_three_turns)
  show "speech bad_file_env 1 (cps ''Hello'') (resolve_voice (cps ''Guest'')) RATE = Saved (cps ''Hello'')"
    by (simp add: bad_file_env_def demo_env_def)
  show "decode bad_file_env (Some (cps ''Hello'')) = Inl (cps ''ffmpeg'')"
    by (simp add: bad_file_env_def demo_env_def)
  show "\<not> listdir_fails bad_file_env" by (simp add: bad_file_env_def demo_env_def)
qed

section \<open>The temporary directory after a run\<close>

text \<open>
  When \<open>os.listdir\<close> does not fail: whatever the outcome of a run, it is not an error of
  the removals, and it is the same whether the removals fail or not; and when no
  removal fails, no temporary directory is left after the run, be it a success, a
  script with no turn (no directory is made then) or an error in the loop or in the
  export.
\<close>

lemma removal_errors_swallowed:
  assumes run: "generate_podcast_audio E script out w = (res, w')"
    and listdir: "\<not> listdir_fails E"
  shows "res \<noteq> Inl OSError
      \<and> fst (generate_podcast_audio (E\<lparr>remove_fails := rf, rmdir_fails := rd\<rparr>) script out w) = res
      \<and> (tmp w = None \<and> (\<forall>f. \<not> remove_fails E f) \<and> \<not> rmdir_fails E \<longrightarrow> tmp w' = None)"
proof (cases "parse_script script = []")
  case True
  with run show ?thesis by (auto simp: generate_podcast_audio_def)
next
  case False
  let ?E = "E\<lparr>remove_fails := rf, rmdir_fails := rd\<rparr>"
  have listdir': "\<not> listdir_fails ?E" using listdir by simp
  from run_stages [OF run False] listdir obtain r0 w0 w2 where
    l: "synth_loop E 0 (parse_script script) [] (mkdtemp w) = (r0, w0)"
    and b: "case r0 of Inl e \<Rightarrow> res = Inl e \<and> w2 = w0
                  | Inr segs \<Rightarrow> combine_export E segs out w0 = (res, w2)"
    and w2: "tmp w2 \<noteq> None" and w': "w' = snd (cleanup E w2)"
    by auto
  have t: "tmp (mkdtemp w) \<noteq> None" by (simp add: mkdtemp_def)
  have 1: "res \<noteq> Inl OSError"
    using b synth_loop_no_os_error [OF t l] by (cases r0) (auto dest: combine_export_world)
  have "append_segment ?E = append_segment E"
    by (intro ext) (simp add: append_segment_def set_frame_rate_def Let_def)
  then have ce: "combine_export ?E segs out w0 = combine_export E segs out w0" for segs
    by (simp add: combine_export_def)
  obtain res2 w2' where run2: "generate_podcast_audio ?E script out w = (res2, w2')"
    by (cases "generate_podcast_audio ?E script out w")
  from run_stages [OF run2 False] listdir' obtain r0' w0' w2'' where
    l': "synth_loop ?E 0 (parse_script script) [] (mkdtemp w) = (r0', w0')"
    and b': "case r0' of Inl e \<Rightarrow> res2 = Inl e \<and> w2'' = w0'
                  | Inr segs \<Rightarrow> combine_export ?E segs out w0' = (res2, w2'')"
    by auto
  from l l' have "r0' = r0" "w0' = w0" by (simp_all add: synth_loop_removals)
  with b b' have "res2 = res" by (cases r0) (auto simp: ce)
  with run2 have 2: "fst (generate_podcast_audio ?E script out w) = res" by simp
  have 3: "tmp w' = None" if "(\<forall>f. \<not> remove_fails E f) \<and> \<not> rmdir_fails E"
    using cleanup_removes [OF w2 listdir] that w' by simp
  from 1 2 3 show ?thesis by blast
qed

text \<open>
  When \<open>os.listdir\<close> fails, every run that has made its temporary directory ends with
  the error of \<open>os.listdir\<close>, whatever the outcome of the \<open>try\<close> block was, and the
  directory is left.
\<close>

lemma listdir_failure_escapes:
  assumes "listdir_fails E" and "parse_script script \<noteq> []"
  shows "\<exists>w'. generate_podcast_audio E script out w = (Inl OSError, w') \<and> tmp w' \<noteq> None"
proof -
  obtain res w' where run: "generate_podcast_audio E script out w = (res, w')"
    by (cases "generate_podcast_audio E script out w")
  from run_stages [OF run assms(2)] assms(1) have "res = Inl OSError" "tmp w' \<noteq> None"
    by auto
  with run show ?thesis by simp
qed

text \<open>
  Claim C4 says that the temporary directory and its files are removed on every exit
  and that no error of the removal reaches the caller. In the \<open>finally\<close> block
  \<open>os.remove\<close> and \<open>os.rmdir\<close> stand each in a \<open>try\<close> with \<open>except: pass\<close>, but \<open>os.listdir\<close>
  stands in none. Where \<open>os.listdir\<close> fails and nothing else does, the run of two turns
  has written the file at the output path, and yet it ends with the error of
  \<open>os.listdir\<close> in place of the output path, and the temporary directory is left with
  its two files.
\<close>

theorem listdir_error_reaches_caller:
  "generate_podcast_audio failing_listdir_env two_turns (cps ''podcast.mp3'') empty_world =
     (Inl OSError,
      \<lparr>tmp = Some [(0, cps ''Hi''), (1, cps ''Hello'')],
       dest = Some \<lparr>frame_rate = 24000,
                    frames = map int (cps ''Hi'') @ pause failing_listdir_env 24000
                             @ map int (cps ''Hello'') @ pause failing_listdir_env 24000\<rparr>,
       requests = [(cps ''Hi'', HOST_VOICE, RATE), (cps ''Hello'', GUEST_VOICE, RATE)]\<rparr>)"
  by (simp add: run_eval parse_two_turns cps_simps sum_eval)

end
